theory Spec2Isabelle
  imports Complex_Main
begin

section \<open>JavaScript numbers\<close>

text \<open>
  The pricing core of \<^verbatim>\<open>binomial.js\<close> computes with JavaScript numbers: binary64
  floating point, with the two infinities and NaN. A number is modelled as a finite real
  or one of the three special values. How a finite exact result becomes a number (rounded
  to a neighbouring binary64 value, overflowing to an infinity, underflowing to zero) is
  not fixed by the model: it is a parameter \<open>ar\<close> of every arithmetic operation, and the
  theorems hold for every such parameter unless they name a condition on it. The sign of
  zero is not modelled: a zero divisor behaves as \<open>+0\<close>, which is what the divisors of
  the core are when they are zero, as long as the spot and the factors are not negative
  (a difference of equal numbers is \<open>+0\<close>).
\<close>

datatype jsnum = Fin real | PInf | NInf | NaN

text \<open>
  The arithmetic of the host: \<open>round_pos\<close> is the number that a positive exact result of
  \<open>+\<close>, \<open>-\<close>, \<open>*\<close> or \<open>/\<close> is rounded to, and \<open>lib_exp\<close>, \<open>lib_sqrt\<close> and
  \<open>lib_pow\<close> are what \<^verbatim>\<open>Math.exp\<close>, \<^verbatim>\<open>Math.sqrt\<close> and \<^verbatim>\<open>Math.pow\<close> return on finite
  arguments (the language leaves their accuracy to the implementation).
\<close>

record arith =
  round_pos :: "real \<Rightarrow> jsnum"
  lib_exp :: "real \<Rightarrow> jsnum"
  lib_sqrt :: "real \<Rightarrow> jsnum"
  lib_pow :: "real \<Rightarrow> int \<Rightarrow> jsnum"

fun jneg :: "jsnum \<Rightarrow> jsnum" where
  "jneg (Fin x) = Fin (- x)"
| "jneg PInf = NInf"
| "jneg NInf = PInf"
| "jneg NaN = NaN"

text \<open>The number for a finite exact result: an exact zero stays zero, and rounding is
  symmetric in the sign.\<close>

definition fin :: "arith \<Rightarrow> real \<Rightarrow> jsnum" where
  "fin ar x = (if x = 0 then Fin 0
               else if 0 < x then round_pos ar x
               else jneg (round_pos ar (- x)))"

fun jadd :: "arith \<Rightarrow> jsnum \<Rightarrow> jsnum \<Rightarrow> jsnum" where
  "jadd ar NaN _ = NaN"
| "jadd ar _ NaN = NaN"
| "jadd ar (Fin x) (Fin y) = fin ar (x + y)"
| "jadd ar PInf NInf = NaN"
| "jadd ar NInf PInf = NaN"
| "jadd ar PInf _ = PInf"
| "jadd ar _ PInf = PInf"
| "jadd ar NInf _ = NInf"
| "jadd ar _ NInf = NInf"

definition jsub :: "arith \<Rightarrow> jsnum \<Rightarrow> jsnum \<Rightarrow> jsnum" where
  "jsub ar a b = jadd ar a (jneg b)"

text \<open>The sign of a number that is not NaN, used for products and quotients with an infinity.\<close>

fun jsgn :: "jsnum \<Rightarrow> int" where
  "jsgn (Fin x) = (if x < 0 then - 1 else if x = 0 then 0 else 1)"
| "jsgn PInf = 1"
| "jsgn NInf = - 1"
| "jsgn NaN = 0"

definition inf_of :: "int \<Rightarrow> jsnum" where
  "inf_of s = (if s = 0 then NaN else if 0 < s then PInf else NInf)"

fun jmul :: "arith \<Rightarrow> jsnum \<Rightarrow> jsnum \<Rightarrow> jsnum" where
  "jmul ar NaN _ = NaN"
| "jmul ar _ NaN = NaN"
| "jmul ar (Fin x) (Fin y) = fin ar (x * y)"
| "jmul ar a b = inf_of (jsgn a * jsgn b)"

fun jdiv :: "arith \<Rightarrow> jsnum \<Rightarrow> jsnum \<Rightarrow> jsnum" where
  "jdiv ar NaN _ = NaN"
| "jdiv ar _ NaN = NaN"
| "jdiv ar (Fin x) (Fin y) = (if y = 0 then inf_of (jsgn (Fin x)) else fin ar (x / y))"
| "jdiv ar (Fin x) _ = Fin 0"
| "jdiv ar a (Fin y) = inf_of (jsgn a * (if y < 0 then - 1 else 1))"
| "jdiv ar _ _ = NaN"

text \<open>\<^verbatim>\<open>Math.exp\<close>: 1 at zero, as the language requires.\<close>

fun jexp :: "arith \<Rightarrow> jsnum \<Rightarrow> jsnum" where
  "jexp ar (Fin x) = (if x = 0 then Fin 1 else lib_exp ar x)"
| "jexp ar PInf = PInf"
| "jexp ar NInf = Fin 0"
| "jexp ar NaN = NaN"

fun jsqrt :: "arith \<Rightarrow> jsnum \<Rightarrow> jsnum" where
  "jsqrt ar (Fin x) = (if x < 0 then NaN else if x = 0 then Fin 0 else lib_sqrt ar x)"
| "jsqrt ar PInf = PInf"
| "jsqrt ar NInf = NaN"
| "jsqrt ar NaN = NaN"

text \<open>\<^verbatim>\<open>Math.pow(x, n)\<close> for an integer exponent; \<^verbatim>\<open>Math.pow(x, 0)\<close> is 1 for every
  \<open>x\<close>, NaN included.\<close>

fun jpow :: "arith \<Rightarrow> jsnum \<Rightarrow> int \<Rightarrow> jsnum" where
  "jpow ar (Fin x) n = (if n = 0 then Fin 1 else lib_pow ar x n)"
| "jpow ar PInf n = (if n = 0 then Fin 1 else if 0 < n then PInf else Fin 0)"
| "jpow ar NInf n =
     (if n = 0 then Fin 1 else if 0 < n then (if even n then PInf else NInf) else Fin 0)"
| "jpow ar NaN n = (if n = 0 then Fin 1 else NaN)"

text \<open>The comparison \<^verbatim>\<open>a > b\<close>: false as soon as one side is NaN.\<close>

fun jgt :: "jsnum \<Rightarrow> jsnum \<Rightarrow> bool" where
  "jgt NaN _ = False"
| "jgt _ NaN = False"
| "jgt (Fin x) (Fin y) = (y < x)"
| "jgt PInf PInf = False"
| "jgt PInf _ = True"
| "jgt _ PInf = False"
| "jgt NInf _ = False"
| "jgt _ NInf = True"

text \<open>The comparison \<^verbatim>\<open>a >= b\<close>, in which the claims about prices are stated.\<close>

definition jge :: "jsnum \<Rightarrow> jsnum \<Rightarrow> bool" where
  "jge a b = (a \<noteq> NaN \<and> b \<noteq> NaN \<and> \<not> jgt b a)"

text \<open>\<^verbatim>\<open>Math.max(a, b)\<close>: NaN as soon as one argument is NaN.\<close>

definition jmax :: "jsnum \<Rightarrow> jsnum \<Rightarrow> jsnum" where
  "jmax a b = (if a = NaN \<or> b = NaN then NaN else if jgt b a then b else a)"

text \<open>Reading a number that may be \<^verbatim>\<open>undefined\<close> (\<open>None\<close>) in an arithmetic position.\<close>

fun to_num :: "jsnum option \<Rightarrow> jsnum" where
  "to_num None = NaN"
| "to_num (Some x) = x"

text \<open>
  Two conditions on the arithmetic, both met by binary64 rounding to nearest.
  \<open>monotone_rounding\<close>: a larger exact result is never rounded to a smaller number (and a
  finite exact result is never rounded to NaN). \<open>rounds_within\<close>: an exact result is
  rounded to a finite number with relative error at most \<open>eps\<close>, which binary64 does with
  \<open>eps = 2\<^sup>-\<^sup>5\<^sup>3\<close> as long as the result neither overflows nor underflows.
\<close>

definition monotone_rounding :: "arith \<Rightarrow> bool" where
  "monotone_rounding ar = (\<forall>x y. x \<le> y \<longrightarrow> jge (fin ar y) (fin ar x))"

definition rounds_within :: "arith \<Rightarrow> real \<Rightarrow> real \<Rightarrow> real \<Rightarrow> bool" where
  "rounds_within ar eps x y = (fin ar x = Fin y \<and> \<bar>y - x\<bar> \<le> eps * \<bar>x\<bar>)"

text \<open>
  One arithmetic to run examples with: exact where the magnitude of the exact result is
  below \<open>2\<^sup>1\<^sup>0\<^sup>2\<^sup>4\<close>, an infinity from there on. It agrees with binary64 arithmetic on every
  operation whose exact result is a binary64 number or has a magnitude of at least
  \<open>2\<^sup>1\<^sup>0\<^sup>2\<^sup>4\<close>. The runs below that show what the code does are chosen so that every
  operation is of that kind; where a run is not (it needs an exponential that is a
  rational), the text says so.
\<close>

definition ovf :: "real \<Rightarrow> jsnum" where
  "ovf x = (if 2 ^ 1024 \<le> x then PInf else if x \<le> - (2 ^ 1024) then NInf else Fin x)"

definition plain :: arith where
  "plain = \<lparr>round_pos = ovf,
            lib_exp = (\<lambda>x. ovf (exp x)),
            lib_sqrt = (\<lambda>x. ovf (sqrt x)),
            lib_pow = (\<lambda>x n. if 0 < n then ovf (x ^ nat n)
                              else if x = 0 then PInf else ovf (1 / x ^ nat (- n)))\<rparr>"

section \<open>JavaScript arrays\<close>

text \<open>
  An array is its \<^verbatim>\<open>length\<close> and its indexed properties; a missing property reads
  as \<^verbatim>\<open>undefined\<close> (\<open>None\<close>). Writing at an index extends the length as JavaScript
  does. The only exception of the core is the TypeError raised by reading or writing a
  property of \<^verbatim>\<open>undefined\<close>.
\<close>

record 'a arr =
  len :: int
  elems :: "int \<Rightarrow> 'a option"

datatype error = TypeError

definition empty_arr :: "'a arr" where
  "empty_arr = \<lparr>len = 0, elems = (\<lambda>_. None)\<rparr>"

definition arr_set :: "'a arr \<Rightarrow> int \<Rightarrow> 'a \<Rightarrow> 'a arr" where
  "arr_set a i v = \<lparr>len = (if 0 \<le> i then max (len a) (i + 1) else len a),
                    elems = (elems a)(i \<mapsto> v)\<rparr>"

text \<open>\<^verbatim>\<open>t[i][j]\<close> read and \<^verbatim>\<open>t[i][j] = v\<close> written through the row \<^verbatim>\<open>t[i]\<close>.\<close>

definition get2 :: "'a arr arr \<Rightarrow> int \<Rightarrow> int \<Rightarrow> error + 'a option" where
  "get2 t i j = (case elems t i of None \<Rightarrow> Inl TypeError | Some row \<Rightarrow> Inr (elems row j))"

definition set2 :: "'a arr arr \<Rightarrow> int \<Rightarrow> int \<Rightarrow> 'a \<Rightarrow> error + 'a arr arr" where
  "set2 t i j v = (case elems t i of None \<Rightarrow> Inl TypeError
                   | Some row \<Rightarrow> Inr (t\<lparr>elems := (elems t)(i \<mapsto> arr_set row j v)\<rparr>))"

section \<open>CRR parameters\<close>

record crr =
  crr_dt :: jsnum
  crr_u :: jsnum
  crr_d :: jsnum
  crr_p :: jsnum
  crr_discount :: jsnum

text \<open>\<^verbatim>\<open>calculateCRRParams\<close>; an argument that is \<^verbatim>\<open>undefined\<close> is \<open>None\<close>.\<close>

definition calculateCRRParams ::
  "arith \<Rightarrow> jsnum \<Rightarrow> jsnum \<Rightarrow> jsnum \<Rightarrow> jsnum \<Rightarrow> jsnum \<Rightarrow> int \<Rightarrow> jsnum option \<Rightarrow> jsnum option \<Rightarrow> crr" where
  "calculateCRRParams ar S K r sigma T N customU customD =
     (let dt = jdiv ar T (Fin (of_int N));
          ud = (case (customU, customD) of
                  (Some cu, Some cd) \<Rightarrow> (cu, cd)
                | _ \<Rightarrow> (let u = jexp ar (jmul ar sigma (jsqrt ar dt)) in (u, jdiv ar (Fin 1) u)));
          u = fst ud;
          d = snd ud;
          p = jdiv ar (jsub ar (jexp ar (jmul ar r dt)) d) (jsub ar u d)
      in \<lparr>crr_dt = dt, crr_u = u, crr_d = d, crr_p = p,
          crr_discount = jexp ar (jmul ar (jneg r) dt)\<rparr>)"

section \<open>Stock price tree\<close>

text \<open>
  \<^verbatim>\<open>buildStockTree\<close>. The source stores the fresh row in \<^verbatim>\<open>tree[i]\<close> and then fills
  it in place; the model fills the row and stores it, which is the same array.
\<close>

function buildStockRow :: "arith \<Rightarrow> jsnum \<Rightarrow> jsnum \<Rightarrow> jsnum \<Rightarrow> int \<Rightarrow> int \<Rightarrow> jsnum arr \<Rightarrow> jsnum arr" where
  "buildStockRow ar S u d i j row =
     (if j \<le> i
      then buildStockRow ar S u d i (j + 1)
             (arr_set row j (jmul ar (jmul ar S (jpow ar u j)) (jpow ar d (i - j))))
      else row)"
  by pat_completeness auto
termination
  by (relation "measure (\<lambda>(ar, S, u, d, i, j, row). nat (i + 1 - j))") auto

function buildStockLoop :: "arith \<Rightarrow> jsnum \<Rightarrow> jsnum \<Rightarrow> jsnum \<Rightarrow> int \<Rightarrow> int \<Rightarrow> jsnum arr arr \<Rightarrow> jsnum arr arr" where
  "buildStockLoop ar S u d N i tree =
     (if i \<le> N
      then buildStockLoop ar S u d N (i + 1) (arr_set tree i (buildStockRow ar S u d i 0 empty_arr))
      else tree)"
  by pat_completeness auto
termination
  by (relation "measure (\<lambda>(ar, S, u, d, N, i, tree). nat (N + 1 - i))") auto

definition buildStockTree :: "arith \<Rightarrow> jsnum \<Rightarrow> jsnum \<Rightarrow> jsnum \<Rightarrow> int \<Rightarrow> jsnum arr arr" where
  "buildStockTree ar S u d N = buildStockLoop ar S u d N 0 empty_arr"


section \<open>Payoff and backward induction\<close>

definition payoff :: "arith \<Rightarrow> jsnum \<Rightarrow> jsnum \<Rightarrow> bool \<Rightarrow> jsnum" where
  "payoff ar S K isCall =
     (if isCall then jmax (jsub ar S K) (Fin 0) else jmax (jsub ar K S) (Fin 0))"

text \<open>The first loop of both pricers: an empty row for every step.\<close>

function initTrees :: "int \<Rightarrow> int \<Rightarrow> jsnum arr arr \<times> bool arr arr \<Rightarrow> jsnum arr arr \<times> bool arr arr" where
  "initTrees N i (optionTree, earlyExercise) =
     (if i \<le> N
      then initTrees N (i + 1) (arr_set optionTree i empty_arr, arr_set earlyExercise i empty_arr)
      else (optionTree, earlyExercise))"
  by pat_completeness auto
termination
  by (relation "measure (\<lambda>(N, i, s). nat (N + 1 - i))") auto

text \<open>The body of the second loop of both pricers: the payoff at node \<open>(N, j)\<close>.\<close>

definition terminalNode ::
  "arith \<Rightarrow> jsnum arr arr \<Rightarrow> jsnum \<Rightarrow> bool \<Rightarrow> int \<Rightarrow> int \<Rightarrow> jsnum arr arr \<times> bool arr arr
   \<Rightarrow> error + (jsnum arr arr \<times> bool arr arr)" where
  "terminalNode ar stockTree K isCall N j s =
     (case s of (optionTree, earlyExercise) \<Rightarrow>
      (case get2 stockTree N j of Inl e \<Rightarrow> Inl e | Inr sp \<Rightarrow>
       (case set2 optionTree N j (payoff ar (to_num sp) K isCall) of Inl e \<Rightarrow> Inl e | Inr ot \<Rightarrow>
        (case set2 earlyExercise N j False of Inl e \<Rightarrow> Inl e | Inr ee \<Rightarrow> Inr (ot, ee)))))"

function terminalPayoffs ::
  "arith \<Rightarrow> jsnum arr arr \<Rightarrow> jsnum \<Rightarrow> bool \<Rightarrow> int \<Rightarrow> int \<Rightarrow> jsnum arr arr \<times> bool arr arr
   \<Rightarrow> error + (jsnum arr arr \<times> bool arr arr)" where
  "terminalPayoffs ar stockTree K isCall N j s =
     (if j \<le> N then
        (case terminalNode ar stockTree K isCall N j s of Inl e \<Rightarrow> Inl e
         | Inr s' \<Rightarrow> terminalPayoffs ar stockTree K isCall N (j + 1) s')
      else Inr s)"
  by pat_completeness auto
termination
  by (relation "measure (\<lambda>(ar, st, K, c, N, j, s). nat (N + 1 - j))") auto

text \<open>\<^verbatim>\<open>holdValue\<close>: the discounted expectation of the two children of a node.\<close>

definition holdValue :: "arith \<Rightarrow> jsnum \<Rightarrow> jsnum \<Rightarrow> jsnum option \<Rightarrow> jsnum option \<Rightarrow> jsnum" where
  "holdValue ar p discount up down =
     jmul ar discount (jadd ar (jmul ar p (to_num up)) (jmul ar (jsub ar (Fin 1) p) (to_num down)))"

text \<open>\<^verbatim>\<open>priceEuropean\<close>: the body of the inner loop, the inner loop over \<open>j\<close>, the
  outer loop over \<open>i\<close> counting down, and the function.\<close>

definition europeanNode ::
  "arith \<Rightarrow> jsnum \<Rightarrow> jsnum \<Rightarrow> int \<Rightarrow> int \<Rightarrow> jsnum arr arr \<times> bool arr arr
   \<Rightarrow> error + (jsnum arr arr \<times> bool arr arr)" where
  "europeanNode ar p discount i j s =
     (case s of (optionTree, earlyExercise) \<Rightarrow>
      (case get2 optionTree (i + 1) (j + 1) of Inl e \<Rightarrow> Inl e | Inr up \<Rightarrow>
       (case get2 optionTree (i + 1) j of Inl e \<Rightarrow> Inl e | Inr down \<Rightarrow>
        (case set2 optionTree i j (holdValue ar p discount up down) of Inl e \<Rightarrow> Inl e | Inr ot \<Rightarrow>
         (case set2 earlyExercise i j False of Inl e \<Rightarrow> Inl e | Inr ee \<Rightarrow> Inr (ot, ee))))))"

function europeanRow ::
  "arith \<Rightarrow> jsnum \<Rightarrow> jsnum \<Rightarrow> int \<Rightarrow> int \<Rightarrow> jsnum arr arr \<times> bool arr arr
   \<Rightarrow> error + (jsnum arr arr \<times> bool arr arr)" where
  "europeanRow ar p discount i j s =
     (if j \<le> i then
        (case europeanNode ar p discount i j s of Inl e \<Rightarrow> Inl e
         | Inr s' \<Rightarrow> europeanRow ar p discount i (j + 1) s')
      else Inr s)"
  by pat_completeness auto
termination
  by (relation "measure (\<lambda>(ar, p, dc, i, j, s). nat (i + 1 - j))") auto

function europeanBack ::
  "arith \<Rightarrow> jsnum \<Rightarrow> jsnum \<Rightarrow> int \<Rightarrow> jsnum arr arr \<times> bool arr arr
   \<Rightarrow> error + (jsnum arr arr \<times> bool arr arr)" where
  "europeanBack ar p discount i s =
     (if 0 \<le> i then
        (case europeanRow ar p discount i 0 s of Inl e \<Rightarrow> Inl e
         | Inr s' \<Rightarrow> europeanBack ar p discount (i - 1) s')
      else Inr s)"
  by pat_completeness auto
termination
  by (relation "measure (\<lambda>(ar, p, dc, i, s). nat (i + 1))") auto

definition priceEuropean ::
  "arith \<Rightarrow> jsnum arr arr \<Rightarrow> jsnum \<Rightarrow> jsnum \<Rightarrow> jsnum \<Rightarrow> bool \<Rightarrow> int
   \<Rightarrow> error + (jsnum arr arr \<times> bool arr arr)" where
  "priceEuropean ar stockTree K p discount isCall N =
     (case terminalPayoffs ar stockTree K isCall N 0 (initTrees N 0 (empty_arr, empty_arr)) of
        Inl e \<Rightarrow> Inl e
      | Inr s \<Rightarrow> europeanBack ar p discount (N - 1) s)"

text \<open>\<^verbatim>\<open>priceAmerican\<close>, in the same four parts.\<close>

definition americanNode ::
  "arith \<Rightarrow> jsnum arr arr \<Rightarrow> jsnum \<Rightarrow> jsnum \<Rightarrow> jsnum \<Rightarrow> bool \<Rightarrow> int \<Rightarrow> int
   \<Rightarrow> jsnum arr arr \<times> bool arr arr \<Rightarrow> error + (jsnum arr arr \<times> bool arr arr)" where
  "americanNode ar stockTree K p discount isCall i j s =
     (case s of (optionTree, earlyExercise) \<Rightarrow>
      (case get2 optionTree (i + 1) (j + 1) of Inl e \<Rightarrow> Inl e | Inr up \<Rightarrow>
       (case get2 optionTree (i + 1) j of Inl e \<Rightarrow> Inl e | Inr down \<Rightarrow>
        (case get2 stockTree i j of Inl e \<Rightarrow> Inl e | Inr sp \<Rightarrow>
         (if jgt (payoff ar (to_num sp) K isCall) (holdValue ar p discount up down) then
            (case set2 optionTree i j (payoff ar (to_num sp) K isCall) of Inl e \<Rightarrow> Inl e | Inr ot \<Rightarrow>
             (case set2 earlyExercise i j True of Inl e \<Rightarrow> Inl e | Inr ee \<Rightarrow> Inr (ot, ee)))
          else
            (case set2 optionTree i j (holdValue ar p discount up down) of Inl e \<Rightarrow> Inl e | Inr ot \<Rightarrow>
             (case set2 earlyExercise i j False of Inl e \<Rightarrow> Inl e | Inr ee \<Rightarrow> Inr (ot, ee))))))))"

function americanRow ::
  "arith \<Rightarrow> jsnum arr arr \<Rightarrow> jsnum \<Rightarrow> jsnum \<Rightarrow> jsnum \<Rightarrow> bool \<Rightarrow> int \<Rightarrow> int
   \<Rightarrow> jsnum arr arr \<times> bool arr arr \<Rightarrow> error + (jsnum arr arr \<times> bool arr arr)" where
  "americanRow ar stockTree K p discount isCall i j s =
     (if j \<le> i then
        (case americanNode ar stockTree K p discount isCall i j s of Inl e \<Rightarrow> Inl e
         | Inr s' \<Rightarrow> americanRow ar stockTree K p discount isCall i (j + 1) s')
      else Inr s)"
  by pat_completeness auto
termination
  by (relation "measure (\<lambda>(ar, st, K, p, dc, c, i, j, s). nat (i + 1 - j))") auto

function americanBack ::
  "arith \<Rightarrow> jsnum arr arr \<Rightarrow> jsnum \<Rightarrow> jsnum \<Rightarrow> jsnum \<Rightarrow> bool \<Rightarrow> int
   \<Rightarrow> jsnum arr arr \<times> bool arr arr \<Rightarrow> error + (jsnum arr arr \<times> bool arr arr)" where
  "americanBack ar stockTree K p discount isCall i s =
     (if 0 \<le> i then
        (case americanRow ar stockTree K p discount isCall i 0 s of Inl e \<Rightarrow> Inl e
         | Inr s' \<Rightarrow> americanBack ar stockTree K p discount isCall (i - 1) s')
      else Inr s)"
  by pat_completeness auto
termination
  by (relation "measure (\<lambda>(ar, st, K, p, dc, c, i, s). nat (i + 1))") auto

definition priceAmerican ::
  "arith \<Rightarrow> jsnum arr arr \<Rightarrow> jsnum \<Rightarrow> jsnum \<Rightarrow> jsnum \<Rightarrow> bool \<Rightarrow> int
   \<Rightarrow> error + (jsnum arr arr \<times> bool arr arr)" where
  "priceAmerican ar stockTree K p discount isCall N =
     (case terminalPayoffs ar stockTree K isCall N 0 (initTrees N 0 (empty_arr, empty_arr)) of
        Inl e \<Rightarrow> Inl e
      | Inr s \<Rightarrow> americanBack ar stockTree K p discount isCall (N - 1) s)"

section \<open>Greeks\<close>

definition calculateDelta :: "arith \<Rightarrow> jsnum arr arr \<Rightarrow> jsnum arr arr \<Rightarrow> error + jsnum" where
  "calculateDelta ar stockTree optionTree =
     (if len stockTree < 2 then Inr (Fin 0) else
      (case get2 stockTree 1 1 of Inl e \<Rightarrow> Inl e | Inr Su \<Rightarrow>
       (case get2 stockTree 1 0 of Inl e \<Rightarrow> Inl e | Inr Sd \<Rightarrow>
        (case get2 optionTree 1 1 of Inl e \<Rightarrow> Inl e | Inr Vu \<Rightarrow>
         (case get2 optionTree 1 0 of Inl e \<Rightarrow> Inl e | Inr Vd \<Rightarrow>
            Inr (jdiv ar (jsub ar (to_num Vu) (to_num Vd)) (jsub ar (to_num Su) (to_num Sd))))))))"

definition calculateGamma :: "arith \<Rightarrow> jsnum arr arr \<Rightarrow> jsnum arr arr \<Rightarrow> error + jsnum" where
  "calculateGamma ar stockTree optionTree =
     (if len stockTree < 3 then Inr (Fin 0) else
      (case get2 stockTree 2 2 of Inl e \<Rightarrow> Inl e | Inr Suu \<Rightarrow>
       (case get2 stockTree 2 1 of Inl e \<Rightarrow> Inl e | Inr Sud \<Rightarrow>
        (case get2 stockTree 2 0 of Inl e \<Rightarrow> Inl e | Inr Sdd \<Rightarrow>
         (case get2 optionTree 2 2 of Inl e \<Rightarrow> Inl e | Inr Vuu \<Rightarrow>
          (case get2 optionTree 2 1 of Inl e \<Rightarrow> Inl e | Inr Vud \<Rightarrow>
           (case get2 optionTree 2 0 of Inl e \<Rightarrow> Inl e | Inr Vdd \<Rightarrow>
              Inr (jdiv ar
                    (jsub ar (jdiv ar (jsub ar (to_num Vuu) (to_num Vud)) (jsub ar (to_num Suu) (to_num Sud)))
                          (jdiv ar (jsub ar (to_num Vud) (to_num Vdd)) (jsub ar (to_num Sud) (to_num Sdd))))
                    (jmul ar (Fin (1 / 2)) (jsub ar (to_num Suu) (to_num Sdd)))))))))))"

section \<open>Early exercise records\<close>

record node =
  node_step :: int
  node_state :: int
  node_stockPrice :: "jsnum option"
  node_optionValue :: "jsnum option"

text \<open>\<^verbatim>\<open>getEarlyExerciseNodes\<close>: a flag that is \<^verbatim>\<open>undefined\<close> is falsy.\<close>

definition collectNode ::
  "jsnum arr arr \<Rightarrow> jsnum arr arr \<Rightarrow> bool arr arr \<Rightarrow> int \<Rightarrow> int \<Rightarrow> node list
   \<Rightarrow> error + node list" where
  "collectNode stockTree optionTree earlyExercise i j nodes =
     (case get2 earlyExercise i j of Inl e \<Rightarrow> Inl e | Inr flag \<Rightarrow>
      (if flag = Some True then
         (case get2 stockTree i j of Inl e \<Rightarrow> Inl e | Inr sp \<Rightarrow>
          (case get2 optionTree i j of Inl e \<Rightarrow> Inl e | Inr v \<Rightarrow>
             Inr (nodes @ [\<lparr>node_step = i, node_state = j,
                            node_stockPrice = sp, node_optionValue = v\<rparr>])))
       else Inr nodes))"

function collectRow ::
  "jsnum arr arr \<Rightarrow> jsnum arr arr \<Rightarrow> bool arr arr \<Rightarrow> int \<Rightarrow> int \<Rightarrow> node list
   \<Rightarrow> error + node list" where
  "collectRow stockTree optionTree earlyExercise i j nodes =
     (if j \<le> i then
        (case collectNode stockTree optionTree earlyExercise i j nodes of Inl e \<Rightarrow> Inl e
         | Inr nodes' \<Rightarrow> collectRow stockTree optionTree earlyExercise i (j + 1) nodes')
      else Inr nodes)"
  by pat_completeness auto
termination
  by (relation "measure (\<lambda>(st, ot, ee, i, j, ns). nat (i + 1 - j))") auto

function collectLoop ::
  "jsnum arr arr \<Rightarrow> jsnum arr arr \<Rightarrow> bool arr arr \<Rightarrow> int \<Rightarrow> int \<Rightarrow> node list
   \<Rightarrow> error + node list" where
  "collectLoop stockTree optionTree earlyExercise N i nodes =
     (if i < N then
        (case collectRow stockTree optionTree earlyExercise i 0 nodes of Inl e \<Rightarrow> Inl e
         | Inr nodes' \<Rightarrow> collectLoop stockTree optionTree earlyExercise N (i + 1) nodes')
      else Inr nodes)"
  by pat_completeness auto
termination
  by (relation "measure (\<lambda>(st, ot, ee, N, i, ns). nat (N - i))") auto

definition getEarlyExerciseNodes ::
  "jsnum arr arr \<Rightarrow> jsnum arr arr \<Rightarrow> bool arr arr \<Rightarrow> int \<Rightarrow> error + node list" where
  "getEarlyExerciseNodes stockTree optionTree earlyExercise N =
     collectLoop stockTree optionTree earlyExercise N 0 []"

section \<open>The pricing pipeline\<close>

text \<open>
  The argument and the result of \<^verbatim>\<open>priceBinomialTree\<close>. The fields carry a prefix
  (\<open>par_\<close>, \<open>res_\<close>, and \<open>crr_\<close>, \<open>node_\<close> above) so that the short names of the
  source stay free for variables. The step count is an integer: it bounds the loops and
  indexes the lattices. A custom factor that is \<^verbatim>\<open>undefined\<close> is \<open>None\<close>, and so is a
  price read from a missing node.
\<close>

record params =
  par_S :: jsnum
  par_K :: jsnum
  par_r :: jsnum
  par_sigma :: jsnum
  par_T :: jsnum
  par_N :: int
  par_isCall :: bool
  par_isAmerican :: bool
  par_isCustomUD :: bool
  par_customU :: "jsnum option"
  par_customD :: "jsnum option"

record result =
  res_crr :: crr
  res_stockTree :: "jsnum arr arr"
  res_optionTree :: "jsnum arr arr"
  res_earlyExercise :: "bool arr arr"
  res_price :: "jsnum option"
  res_delta :: jsnum
  res_gamma :: jsnum
  res_earlyExerciseNodes :: "node list"

definition priceBinomialTree :: "arith \<Rightarrow> params \<Rightarrow> error + result" where
  "priceBinomialTree ar ps =
     (let c = (if par_isCustomUD ps
               then calculateCRRParams ar (par_S ps) (par_K ps) (par_r ps) (par_sigma ps) (par_T ps)
                      (par_N ps) (par_customU ps) (par_customD ps)
               else calculateCRRParams ar (par_S ps) (par_K ps) (par_r ps) (par_sigma ps) (par_T ps)
                      (par_N ps) None None);
          stockTree = buildStockTree ar (par_S ps) (crr_u c) (crr_d c) (par_N ps)
      in
      (case (if par_isAmerican ps
             then priceAmerican ar stockTree (par_K ps) (crr_p c) (crr_discount c) (par_isCall ps) (par_N ps)
             else priceEuropean ar stockTree (par_K ps) (crr_p c) (crr_discount c) (par_isCall ps) (par_N ps)) of
         Inl e \<Rightarrow> Inl e
       | Inr (optionTree, earlyExercise) \<Rightarrow>
      (case calculateDelta ar stockTree optionTree of Inl e \<Rightarrow> Inl e | Inr delta \<Rightarrow>
      (case calculateGamma ar stockTree optionTree of Inl e \<Rightarrow> Inl e | Inr gamma \<Rightarrow>
      (case (if par_isAmerican ps
             then getEarlyExerciseNodes stockTree optionTree earlyExercise (par_N ps)
             else Inr []) of
         Inl e \<Rightarrow> Inl e
       | Inr earlyExerciseNodes \<Rightarrow>
      (case get2 optionTree 0 0 of Inl e \<Rightarrow> Inl e | Inr price \<Rightarrow>
         Inr \<lparr>res_crr = c, res_stockTree = stockTree, res_optionTree = optionTree,
              res_earlyExercise = earlyExercise, res_price = price,
              res_delta = delta, res_gamma = gamma,
              res_earlyExerciseNodes = earlyExerciseNodes\<rparr>))))))"

section \<open>Closed forms of the loops\<close>

text \<open>The loops are unfolded by hand in the proofs, never by the simplifier on its own.\<close>

declare buildStockRow.simps [simp del] buildStockLoop.simps [simp del]
  initTrees.simps [simp del] terminalPayoffs.simps [simp del]
  europeanRow.simps [simp del] europeanBack.simps [simp del]
  americanRow.simps [simp del] americanBack.simps [simp del]
  collectRow.simps [simp del] collectLoop.simps [simp del]

text \<open>The array of length \<open>n\<close> whose element \<open>i\<close> is \<open>f i\<close>.\<close>

definition filled :: "int \<Rightarrow> (int \<Rightarrow> 'a) \<Rightarrow> 'a arr" where
  "filled n f = \<lparr>len = n, elems = (\<lambda>i. if 0 \<le> i \<and> i < n then Some (f i) else None)\<rparr>"

text \<open>
  A lattice under construction by backward induction: the rows after step \<open>i\<close> are
  complete, row \<open>i\<close> holds its first \<open>j\<close> nodes and the earlier rows are empty.
  \<open>full N V\<close> is the complete triangular lattice of \<open>N + 1\<close> steps.
\<close>

definition prog :: "int \<Rightarrow> (int \<Rightarrow> int \<Rightarrow> 'a) \<Rightarrow> int \<Rightarrow> int \<Rightarrow> 'a arr arr" where
  "prog N V i j =
     filled (N + 1) (\<lambda>k. filled (if i < k then k + 1 else if k = i then j else 0) (V k))"

definition full :: "int \<Rightarrow> (int \<Rightarrow> int \<Rightarrow> 'a) \<Rightarrow> 'a arr arr" where
  "full N V = filled (N + 1) (\<lambda>k. filled (k + 1) (V k))"

text \<open>The value of \<^verbatim>\<open>t[i][j]\<close> where the row exists, \<^verbatim>\<open>undefined\<close> otherwise.\<close>

definition peek :: "'a arr arr \<Rightarrow> int \<Rightarrow> int \<Rightarrow> 'a option" where
  "peek t i j = (case elems t i of None \<Rightarrow> None | Some row \<Rightarrow> elems row j)"

text \<open>The price that \<^verbatim>\<open>buildStockTree\<close> stores at node \<open>(i, j)\<close>.\<close>

definition stockPrice :: "arith \<Rightarrow> jsnum \<Rightarrow> jsnum \<Rightarrow> jsnum \<Rightarrow> int \<Rightarrow> int \<Rightarrow> jsnum" where
  "stockPrice ar S u d i j = jmul ar (jmul ar S (jpow ar u j)) (jpow ar d (i - j))"

text \<open>The values that the two pricers store at node \<open>(i, j)\<close>, and the flag of the
  American one.\<close>

function euroV ::
  "arith \<Rightarrow> jsnum arr arr \<Rightarrow> jsnum \<Rightarrow> jsnum \<Rightarrow> jsnum \<Rightarrow> bool \<Rightarrow> int \<Rightarrow> int \<Rightarrow> int \<Rightarrow> jsnum" where
  "euroV ar st K p discount isCall N i j =
     (if N \<le> i then payoff ar (to_num (peek st N j)) K isCall
      else holdValue ar p discount (Some (euroV ar st K p discount isCall N (i + 1) (j + 1)))
             (Some (euroV ar st K p discount isCall N (i + 1) j)))"
  by pat_completeness auto
termination
  by (relation "measure (\<lambda>(ar, st, K, p, dc, c, N, i, j). nat (N - i))") auto

function amerV ::
  "arith \<Rightarrow> jsnum arr arr \<Rightarrow> jsnum \<Rightarrow> jsnum \<Rightarrow> jsnum \<Rightarrow> bool \<Rightarrow> int \<Rightarrow> int \<Rightarrow> int \<Rightarrow> jsnum" where
  "amerV ar st K p discount isCall N i j =
     (if N \<le> i then payoff ar (to_num (peek st N j)) K isCall
      else if jgt (payoff ar (to_num (peek st i j)) K isCall)
                (holdValue ar p discount (Some (amerV ar st K p discount isCall N (i + 1) (j + 1)))
                   (Some (amerV ar st K p discount isCall N (i + 1) j)))
      then payoff ar (to_num (peek st i j)) K isCall
      else holdValue ar p discount (Some (amerV ar st K p discount isCall N (i + 1) (j + 1)))
             (Some (amerV ar st K p discount isCall N (i + 1) j)))"
  by pat_completeness auto
termination
  by (relation "measure (\<lambda>(ar, st, K, p, dc, c, N, i, j). nat (N - i))") auto

definition amerF ::
  "arith \<Rightarrow> jsnum arr arr \<Rightarrow> jsnum \<Rightarrow> jsnum \<Rightarrow> jsnum \<Rightarrow> bool \<Rightarrow> int \<Rightarrow> int \<Rightarrow> int \<Rightarrow> bool" where
  "amerF ar st K p discount isCall N i j =
     (i < N \<and>
      jgt (payoff ar (to_num (peek st i j)) K isCall)
        (holdValue ar p discount (Some (amerV ar st K p discount isCall N (i + 1) (j + 1)))
           (Some (amerV ar st K p discount isCall N (i + 1) j))))"

declare euroV.simps [simp del] amerV.simps [simp del]

text \<open>The record that \<^verbatim>\<open>getEarlyExerciseNodes\<close> pushes for node \<open>(i, j)\<close>.\<close>

definition nodeAt :: "jsnum arr arr \<Rightarrow> jsnum arr arr \<Rightarrow> int \<Rightarrow> int \<Rightarrow> node" where
  "nodeAt st ot i j =
     \<lparr>node_step = i, node_state = j, node_stockPrice = peek st i j, node_optionValue = peek ot i j\<rparr>"

text \<open>The order of the records: by step, then by state.\<close>

definition node_before :: "node \<Rightarrow> node \<Rightarrow> bool" where
  "node_before a b \<longleftrightarrow>
     node_step a < node_step b \<or> (node_step a = node_step b \<and> node_state a < node_state b)"

text \<open>The parameters, the stock lattice, the node values and the node flags of a run of
  \<^verbatim>\<open>priceBinomialTree\<close>.\<close>

definition crrOf :: "arith \<Rightarrow> params \<Rightarrow> crr" where
  "crrOf ar ps =
     (if par_isCustomUD ps
      then calculateCRRParams ar (par_S ps) (par_K ps) (par_r ps) (par_sigma ps) (par_T ps)
             (par_N ps) (par_customU ps) (par_customD ps)
      else calculateCRRParams ar (par_S ps) (par_K ps) (par_r ps) (par_sigma ps) (par_T ps)
             (par_N ps) None None)"

definition stockOf :: "arith \<Rightarrow> params \<Rightarrow> jsnum arr arr" where
  "stockOf ar ps = buildStockTree ar (par_S ps) (crr_u (crrOf ar ps)) (crr_d (crrOf ar ps)) (par_N ps)"

definition valueOf :: "arith \<Rightarrow> params \<Rightarrow> int \<Rightarrow> int \<Rightarrow> jsnum" where
  "valueOf ar ps =
     (if par_isAmerican ps
      then amerV ar (stockOf ar ps) (par_K ps) (crr_p (crrOf ar ps)) (crr_discount (crrOf ar ps))
             (par_isCall ps) (par_N ps)
      else euroV ar (stockOf ar ps) (par_K ps) (crr_p (crrOf ar ps)) (crr_discount (crrOf ar ps))
             (par_isCall ps) (par_N ps))"

definition flagOf :: "arith \<Rightarrow> params \<Rightarrow> int \<Rightarrow> int \<Rightarrow> bool" where
  "flagOf ar ps =
     (if par_isAmerican ps
      then amerF ar (stockOf ar ps) (par_K ps) (crr_p (crrOf ar ps)) (crr_discount (crrOf ar ps))
             (par_isCall ps) (par_N ps)
      else (\<lambda>i j. False))"

text \<open>
  A run used to exercise the theorems below: a two-step call with spot 16, strike 5, zero
  rate and the custom factors \<open>u = 3/4\<close> and \<open>d = 1/2\<close>, for which every intermediate
  value is a dyadic rational and \<open>p = 2\<close> lies outside \<open>[0, 1]\<close>.
\<close>

definition example_params :: params where
  "example_params =
     \<lparr>par_S = Fin 16, par_K = Fin 5, par_r = Fin 0, par_sigma = Fin (1 / 4), par_T = Fin 1,
      par_N = 2, par_isCall = True, par_isAmerican = False, par_isCustomUD = True,
      par_customU = Some (Fin (3 / 4)), par_customD = Some (Fin (1 / 2))\<rparr>"

text \<open>The same call priced American style on three steps of one year.\<close>

definition example_three :: params where
  "example_three = example_params\<lparr>par_T := Fin 3, par_N := 3, par_isAmerican := True\<rparr>"

text \<open>
  A second run, with \<open>0 \<le> p \<le> 1\<close>: a one-step put with spot 4, strike 5, zero rate and
  the custom factors \<open>u = 3/2\<close> and \<open>d = 1/2\<close>, so that \<open>p = 1/2\<close>.
\<close>

definition example_put :: params where
  "example_put =
     \<lparr>par_S = Fin 4, par_K = Fin 5, par_r = Fin 0, par_sigma = Fin (1 / 4), par_T = Fin 1,
      par_N = 1, par_isCall = False, par_isAmerican = True, par_isCustomUD = True,
      par_customU = Some (Fin (3 / 2)), par_customD = Some (Fin (1 / 2))\<rparr>"

text \<open>
  A run with an early exercise and \<open>0 \<le> p \<le> 1\<close>: a one-step American put with spot 4,
  strike 8, the custom factors \<open>u = 2\<close> and \<open>d = 1/2\<close>, and the rate \<open>r = ln (5/4)\<close>
  over one year, chosen so that the two exponentials are the rationals \<open>5/4\<close> and
  \<open>4/5\<close> in the arithmetic \<open>plain\<close>: then \<open>p = 1/2\<close> and the discount factor is
  \<open>4/5\<close>. This rate is not a binary64 number; an early exercise needs a rate other than
  0, and the exponential of a rational other than 0 is irrational.
\<close>

definition example_early :: params where
  "example_early =
     \<lparr>par_S = Fin 4, par_K = Fin 8, par_r = Fin (ln (5 / 4)), par_sigma = Fin (1 / 4),
      par_T = Fin 1, par_N = 1, par_isCall = False, par_isAmerican = True,
      par_isCustomUD = True, par_customU = Some (Fin 2), par_customD = Some (Fin (1 / 2))\<rparr>"

text \<open>
  A third run, degenerate: a one-step American call with spot 16, strike 5, zero rate
  and the custom factors \<open>u = d = 1\<close>, so that \<open>p = 0 / 0\<close>.
\<close>

definition example_flat :: params where
  "example_flat =
     \<lparr>par_S = Fin 16, par_K = Fin 5, par_r = Fin 0, par_sigma = Fin (1 / 4), par_T = Fin 1,
      par_N = 1, par_isCall = True, par_isAmerican = True, par_isCustomUD = True,
      par_customU = Some (Fin 1), par_customD = Some (Fin 1)\<rparr>"

section \<open>Arrays and lattices under construction\<close>

lemma filled_cong: "(\<And>i. 0 \<le> i \<Longrightarrow> i < n \<Longrightarrow> f i = g i) \<Longrightarrow> filled n f = filled n g"
  by (auto simp: filled_def fun_eq_iff)

lemma filled_0 [simp]: "filled 0 f = empty_arr"
  by (simp add: filled_def empty_arr_def fun_eq_iff)

lemma len_filled [simp]: "len (filled n f) = n"
  by (simp add: filled_def)

lemma elems_filled: "elems (filled n f) i = (if 0 \<le> i \<and> i < n then Some (f i) else None)"
  by (simp add: filled_def)

lemma arr_set_filled: "0 \<le> n \<Longrightarrow> arr_set (filled n f) n (f n) = filled (n + 1) f"
  by (auto simp: filled_def arr_set_def fun_eq_iff)

lemma buildStockRow_filled:
  "0 \<le> j \<Longrightarrow> j \<le> i + 1 \<Longrightarrow>
   buildStockRow ar S u d i j (filled j (stockPrice ar S u d i)) = filled (i + 1) (stockPrice ar S u d i)"
proof (induction ar S u d i j "filled j (stockPrice ar S u d i)" rule: buildStockRow.induct)
  case (1 ar S u d i j)
  show ?case
  proof (cases "j \<le> i")
    case True
    have "arr_set (filled j (stockPrice ar S u d i)) j (jmul ar (jmul ar S (jpow ar u j)) (jpow ar d (i - j)))
          = filled (j + 1) (stockPrice ar S u d i)"
      using arr_set_filled [OF \<open>0 \<le> j\<close>, of "stockPrice ar S u d i"] by (simp add: stockPrice_def)
    with 1 True show ?thesis
      by (subst buildStockRow.simps) simp
  next
    case False
    with 1 have "j = i + 1" by simp
    then show ?thesis by (subst buildStockRow.simps) simp
  qed
qed

lemma buildStockLoop_filled:
  "0 \<le> i \<Longrightarrow> i \<le> N + 1 \<Longrightarrow>
   buildStockLoop ar S u d N i (filled i (\<lambda>k. filled (k + 1) (stockPrice ar S u d k))) = full N (stockPrice ar S u d)"
proof (induction ar S u d N i "filled i (\<lambda>k. filled (k + 1) (stockPrice ar S u d k))" rule: buildStockLoop.induct)
  case (1 ar S u d N i)
  show ?case
  proof (cases "i \<le> N")
    case True
    have row: "buildStockRow ar S u d i 0 empty_arr = filled (i + 1) (stockPrice ar S u d i)"
      using buildStockRow_filled [where j = 0 and i = i and ar = ar and S = S and u = u and d = d] \<open>0 \<le> i\<close> by simp
    have "arr_set (filled i (\<lambda>k. filled (k + 1) (stockPrice ar S u d k))) i (buildStockRow ar S u d i 0 empty_arr)
          = filled (i + 1) (\<lambda>k. filled (k + 1) (stockPrice ar S u d k))"
      using arr_set_filled [OF \<open>0 \<le> i\<close>, of "\<lambda>k. filled (k + 1) (stockPrice ar S u d k)"] row by simp
    with 1 True show ?thesis
      by (subst buildStockLoop.simps) simp
  next
    case False
    with 1 have "i = N + 1" by simp
    then show ?thesis by (subst buildStockLoop.simps) (simp add: full_def)
  qed
qed

lemma buildStockTree_full: "0 \<le> N \<Longrightarrow> buildStockTree ar S u d N = full N (stockPrice ar S u d)"
  using buildStockLoop_filled [where i = 0 and N = N and ar = ar and S = S and u = u and d = d] by (simp add: buildStockTree_def)

lemma buildStockTree_neg: "N < 0 \<Longrightarrow> buildStockTree ar S u d N = empty_arr"
  by (simp add: buildStockTree_def buildStockLoop.simps)


lemma set2_prog:
  "0 \<le> i \<Longrightarrow> i \<le> N \<Longrightarrow> 0 \<le> j \<Longrightarrow> set2 (prog N V i j) i j (V i j) = Inr (prog N V i (j + 1))"
  by (auto simp: set2_def prog_def filled_def arr_set_def fun_eq_iff)

lemma get2_prog:
  "i < k \<Longrightarrow> 0 \<le> k \<Longrightarrow> k \<le> N \<Longrightarrow> 0 \<le> l \<Longrightarrow> l \<le> k \<Longrightarrow> get2 (prog N V i j) k l = Inr (Some (V k l))"
  by (auto simp: get2_def prog_def filled_def)

lemma prog_next: "prog N V i (i + 1) = prog N V (i - 1) 0"
proof -
  have "(if i < k then k + 1 else if k = i then i + 1 else 0)
        = (if i - 1 < k then k + 1 else if k = i - 1 then 0 else 0)" for k :: int
    by auto
  then show ?thesis by (simp add: prog_def)
qed

lemma prog_full: "prog N V (- 1) 0 = full N V"
  by (auto simp: prog_def full_def intro!: filled_cong)

lemma prog_init: "prog N V N 0 = filled (N + 1) (\<lambda>k. empty_arr)"
  by (auto simp: prog_def intro!: filled_cong)

lemma initTrees_filled:
  "0 \<le> i \<Longrightarrow> i \<le> N + 1 \<Longrightarrow>
   initTrees N i (filled i (\<lambda>k. empty_arr), filled i (\<lambda>k. empty_arr))
   = (filled (N + 1) (\<lambda>k. empty_arr), filled (N + 1) (\<lambda>k. empty_arr))"
proof (induction "nat (N + 1 - i)" arbitrary: i)
  case 0
  then have "i = N + 1" by simp
  then show ?case by (subst initTrees.simps) simp
next
  case (Suc n)
  then have le: "i \<le> N" by simp
  have step: "arr_set (filled i (\<lambda>k. empty_arr)) i empty_arr = filled (i + 1) (\<lambda>k. empty_arr :: 'a arr)"
    for dummy :: 'a
    using arr_set_filled [OF \<open>0 \<le> i\<close>, of "\<lambda>k. empty_arr :: 'a arr"] by simp
  have "initTrees N (i + 1) (filled (i + 1) (\<lambda>k. empty_arr), filled (i + 1) (\<lambda>k. empty_arr))
        = (filled (N + 1) (\<lambda>k. empty_arr), filled (N + 1) (\<lambda>k. empty_arr))"
    using Suc by (intro Suc(1)) auto
  then show ?case
    using le by (subst initTrees.simps) (simp add: step)
qed

lemma initTrees_prog:
  "0 \<le> N \<Longrightarrow> initTrees N 0 (empty_arr, empty_arr) = (prog N V N 0, prog N F N 0)"
  using initTrees_filled [of 0 N] by (simp add: prog_init)

lemma terminalNode_prog:
  assumes "0 \<le> N" "0 \<le> j" "elems st N \<noteq> None"
    and "V N j = payoff ar (to_num (peek st N j)) K isCall" and "\<not> F N j"
  shows "terminalNode ar st K isCall N j (prog N V N j, prog N F N j)
         = Inr (prog N V N (j + 1), prog N F N (j + 1))"
proof -
  from assms(3) obtain row where row: "elems st N = Some row" by auto
  have g: "get2 st N j = Inr (peek st N j)" by (simp add: get2_def peek_def row)
  have s1: "set2 (prog N V N j) N j (payoff ar (to_num (peek st N j)) K isCall) = Inr (prog N V N (j + 1))"
    using set2_prog [of N N j V] assms by simp
  have s2: "set2 (prog N F N j) N j False = Inr (prog N F N (j + 1))"
    using set2_prog [of N N j F] assms by simp
  show ?thesis by (simp add: terminalNode_def g s1 s2)
qed

lemma terminalPayoffs_prog:
  assumes "0 \<le> N" "elems st N \<noteq> None"
    and "\<And>j. V N j = payoff ar (to_num (peek st N j)) K isCall" and "\<And>j. \<not> F N j"
  shows "0 \<le> j \<Longrightarrow> j \<le> N + 1 \<Longrightarrow>
         terminalPayoffs ar st K isCall N j (prog N V N j, prog N F N j)
         = Inr (prog N V (N - 1) 0, prog N F (N - 1) 0)"
proof (induction "nat (N + 1 - j)" arbitrary: j)
  case 0
  then have "j = N + 1" by simp
  then show ?case by (subst terminalPayoffs.simps) (simp add: prog_next)
next
  case (Suc n)
  then have le: "j \<le> N" by simp
  have "terminalPayoffs ar st K isCall N (j + 1) (prog N V N (j + 1), prog N F N (j + 1))
         = Inr (prog N V (N - 1) 0, prog N F (N - 1) 0)"
    using Suc by (intro Suc(1)) auto
  then show ?case
    using le terminalNode_prog [of N j st V ar K isCall F] assms \<open>0 \<le> j\<close>
    by (subst terminalPayoffs.simps) simp
qed


lemma europeanNode_prog:
  assumes "0 \<le> i" "i < N" "0 \<le> j" "j \<le> i"
    and "V i j = holdValue ar p discount (Some (V (i + 1) (j + 1))) (Some (V (i + 1) j))"
    and "\<not> F i j"
  shows "europeanNode ar p discount i j (prog N V i j, prog N F i j)
         = Inr (prog N V i (j + 1), prog N F i (j + 1))"
proof -
  have g1: "get2 (prog N V i j) (i + 1) (j + 1) = Inr (Some (V (i + 1) (j + 1)))"
    using assms by (intro get2_prog) auto
  have g2: "get2 (prog N V i j) (i + 1) j = Inr (Some (V (i + 1) j))"
    using assms by (intro get2_prog) auto
  have s1: "set2 (prog N V i j) i j (holdValue ar p discount (Some (V (i + 1) (j + 1))) (Some (V (i + 1) j)))
            = Inr (prog N V i (j + 1))"
    using set2_prog [of i N j V] assms by simp
  have s2: "set2 (prog N F i j) i j False = Inr (prog N F i (j + 1))"
    using set2_prog [of i N j F] assms by simp
  show ?thesis by (simp add: europeanNode_def g1 g2 s1 s2)
qed

lemma europeanRow_prog:
  assumes "0 \<le> i" "i < N"
    and "\<And>j. V i j = holdValue ar p discount (Some (V (i + 1) (j + 1))) (Some (V (i + 1) j))"
    and "\<And>j. \<not> F i j"
  shows "0 \<le> j \<Longrightarrow> j \<le> i + 1 \<Longrightarrow>
         europeanRow ar p discount i j (prog N V i j, prog N F i j)
         = Inr (prog N V (i - 1) 0, prog N F (i - 1) 0)"
proof (induction "nat (i + 1 - j)" arbitrary: j)
  case 0
  then have "j = i + 1" by simp
  then show ?case by (subst europeanRow.simps) (simp add: prog_next)
next
  case (Suc n)
  then have le: "j \<le> i" by simp
  have "europeanRow ar p discount i (j + 1) (prog N V i (j + 1), prog N F i (j + 1))
         = Inr (prog N V (i - 1) 0, prog N F (i - 1) 0)"
    using Suc by (intro Suc(1)) auto
  then show ?case
    using le europeanNode_prog [of i N j V ar p discount F] assms \<open>0 \<le> j\<close>
    by (subst europeanRow.simps) simp
qed

lemma europeanBack_prog:
  assumes "\<And>i j. i < N \<Longrightarrow> V i j = holdValue ar p discount (Some (V (i + 1) (j + 1))) (Some (V (i + 1) j))"
    and "\<And>i j. \<not> F i j"
  shows "- 1 \<le> i \<Longrightarrow> i < N \<Longrightarrow>
         europeanBack ar p discount i (prog N V i 0, prog N F i 0) = Inr (full N V, full N F)"
proof (induction "nat (i + 1)" arbitrary: i)
  case 0
  then have "i = - 1" by simp
  then show ?case by (subst europeanBack.simps) (simp add: prog_full)
next
  case (Suc n)
  then have ge: "0 \<le> i" by simp
  have row: "europeanRow ar p discount i 0 (prog N V i 0, prog N F i 0)
             = Inr (prog N V (i - 1) 0, prog N F (i - 1) 0)"
    using europeanRow_prog [of i N V ar p discount F 0] assms ge \<open>i < N\<close> by simp
  have "europeanBack ar p discount (i - 1) (prog N V (i - 1) 0, prog N F (i - 1) 0) = Inr (full N V, full N F)"
    using Suc by (intro Suc(1)) auto
  then show ?case
    using ge row by (subst europeanBack.simps) simp
qed

lemma priceEuropean_full:
  assumes "0 \<le> N" "elems st N \<noteq> None"
  shows "priceEuropean ar st K p discount isCall N
         = Inr (full N (euroV ar st K p discount isCall N), full N (\<lambda>i j. False))"
proof -
  let ?V = "euroV ar st K p discount isCall N"
  let ?F = "\<lambda>(i::int) (j::int). False"
  have init: "initTrees N 0 (empty_arr, empty_arr) = (prog N ?V N 0, prog N ?F N 0)"
    using initTrees_prog [OF assms(1)] .
  have tp: "terminalPayoffs ar st K isCall N 0 (prog N ?V N 0, prog N ?F N 0)
              = Inr (prog N ?V (N - 1) 0, prog N ?F (N - 1) 0)"
    using assms by (intro terminalPayoffs_prog) (auto simp: euroV.simps [of ar st K p discount isCall N N])
  have bk: "europeanBack ar p discount (N - 1) (prog N ?V (N - 1) 0, prog N ?F (N - 1) 0)
              = Inr (full N ?V, full N ?F)"
    using assms by (intro europeanBack_prog) (auto simp: euroV.simps [of ar st K p discount isCall N])
  show ?thesis by (simp add: priceEuropean_def init tp bk)
qed

lemma americanNode_prog:
  assumes "0 \<le> i" "i < N" "0 \<le> j" "j \<le> i" "elems st i \<noteq> None"
    and "V i j = (if jgt (payoff ar (to_num (peek st i j)) K isCall)
                        (holdValue ar p discount (Some (V (i + 1) (j + 1))) (Some (V (i + 1) j)))
                  then payoff ar (to_num (peek st i j)) K isCall
                  else holdValue ar p discount (Some (V (i + 1) (j + 1))) (Some (V (i + 1) j)))"
    and "F i j = jgt (payoff ar (to_num (peek st i j)) K isCall)
                        (holdValue ar p discount (Some (V (i + 1) (j + 1))) (Some (V (i + 1) j)))"
  shows "americanNode ar st K p discount isCall i j (prog N V i j, prog N F i j)
         = Inr (prog N V i (j + 1), prog N F i (j + 1))"
proof -
  from assms(5) obtain row where row: "elems st i = Some row" by auto
  have g: "get2 st i j = Inr (peek st i j)" by (simp add: get2_def peek_def row)
  have g1: "get2 (prog N V i j) (i + 1) (j + 1) = Inr (Some (V (i + 1) (j + 1)))"
    using assms by (intro get2_prog) auto
  have g2: "get2 (prog N V i j) (i + 1) j = Inr (Some (V (i + 1) j))"
    using assms by (intro get2_prog) auto
  have s1: "set2 (prog N V i j) i j (V i j) = Inr (prog N V i (j + 1))"
    using set2_prog [of i N j V] assms by simp
  have s2: "set2 (prog N F i j) i j (F i j) = Inr (prog N F i (j + 1))"
    using set2_prog [of i N j F] assms by simp
  show ?thesis
  proof (cases "F i j")
    case True
    with s1 s2 assms(6,7) show ?thesis by (simp add: americanNode_def g g1 g2)
  next
    case False
    with s1 s2 assms(6,7) show ?thesis by (simp add: americanNode_def g g1 g2)
  qed
qed


lemma americanRow_prog:
  assumes "0 \<le> i" "i < N" "elems st i \<noteq> None"
    and "\<And>j. V i j = (if jgt (payoff ar (to_num (peek st i j)) K isCall)
                        (holdValue ar p discount (Some (V (i + 1) (j + 1))) (Some (V (i + 1) j)))
                  then payoff ar (to_num (peek st i j)) K isCall
                  else holdValue ar p discount (Some (V (i + 1) (j + 1))) (Some (V (i + 1) j)))"
    and "\<And>j. F i j = jgt (payoff ar (to_num (peek st i j)) K isCall)
                        (holdValue ar p discount (Some (V (i + 1) (j + 1))) (Some (V (i + 1) j)))"
  shows "0 \<le> j \<Longrightarrow> j \<le> i + 1 \<Longrightarrow>
         americanRow ar st K p discount isCall i j (prog N V i j, prog N F i j)
         = Inr (prog N V (i - 1) 0, prog N F (i - 1) 0)"
proof (induction "nat (i + 1 - j)" arbitrary: j)
  case 0
  then have "j = i + 1" by simp
  then show ?case by (subst americanRow.simps) (simp add: prog_next)
next
  case (Suc n)
  then have le: "j \<le> i" by simp
  have nd: "americanNode ar st K p discount isCall i j (prog N V i j, prog N F i j)
            = Inr (prog N V i (j + 1), prog N F i (j + 1))"
    using assms(1,2) \<open>0 \<le> j\<close> le assms(3) assms(4) [of j] assms(5) [of j]
    by (rule americanNode_prog)
  have "americanRow ar st K p discount isCall i (j + 1) (prog N V i (j + 1), prog N F i (j + 1))
         = Inr (prog N V (i - 1) 0, prog N F (i - 1) 0)"
    using Suc by (intro Suc(1)) auto
  then show ?case
    using le nd by (subst americanRow.simps) simp
qed

lemma americanBack_prog:
  assumes "\<And>i. 0 \<le> i \<Longrightarrow> i < N \<Longrightarrow> elems st i \<noteq> None"
    and "\<And>i j. i < N \<Longrightarrow> V i j = (if jgt (payoff ar (to_num (peek st i j)) K isCall)
                        (holdValue ar p discount (Some (V (i + 1) (j + 1))) (Some (V (i + 1) j)))
                  then payoff ar (to_num (peek st i j)) K isCall
                  else holdValue ar p discount (Some (V (i + 1) (j + 1))) (Some (V (i + 1) j)))"
    and "\<And>i j. i < N \<Longrightarrow> F i j = jgt (payoff ar (to_num (peek st i j)) K isCall)
                        (holdValue ar p discount (Some (V (i + 1) (j + 1))) (Some (V (i + 1) j)))"
  shows "- 1 \<le> i \<Longrightarrow> i < N \<Longrightarrow>
         americanBack ar st K p discount isCall i (prog N V i 0, prog N F i 0) = Inr (full N V, full N F)"
proof (induction "nat (i + 1)" arbitrary: i)
  case 0
  then have "i = - 1" by simp
  then show ?case by (subst americanBack.simps) (simp add: prog_full)
next
  case (Suc n)
  then have ge: "0 \<le> i" by simp
  have row: "americanRow ar st K p discount isCall i 0 (prog N V i 0, prog N F i 0)
             = Inr (prog N V (i - 1) 0, prog N F (i - 1) 0)"
    using ge \<open>i < N\<close> assms(1) [OF ge \<open>i < N\<close>] assms(2) [OF \<open>i < N\<close>] assms(3) [OF \<open>i < N\<close>]
    by (intro americanRow_prog) auto
  have "americanBack ar st K p discount isCall (i - 1) (prog N V (i - 1) 0, prog N F (i - 1) 0)
        = Inr (full N V, full N F)"
    using Suc by (intro Suc(1)) auto
  then show ?case
    using ge row by (subst americanBack.simps) simp
qed

lemma priceAmerican_full:
  assumes "0 \<le> N" "\<And>i. 0 \<le> i \<Longrightarrow> i \<le> N \<Longrightarrow> elems st i \<noteq> None"
  shows "priceAmerican ar st K p discount isCall N
         = Inr (full N (amerV ar st K p discount isCall N), full N (amerF ar st K p discount isCall N))"
proof -
  let ?V = "amerV ar st K p discount isCall N"
  let ?F = "amerF ar st K p discount isCall N"
  have init: "initTrees N 0 (empty_arr, empty_arr) = (prog N ?V N 0, prog N ?F N 0)"
    using initTrees_prog [OF assms(1)] .
  have tp: "terminalPayoffs ar st K isCall N 0 (prog N ?V N 0, prog N ?F N 0)
              = Inr (prog N ?V (N - 1) 0, prog N ?F (N - 1) 0)"
    using assms by (intro terminalPayoffs_prog)
      (auto simp: amerV.simps [of ar st K p discount isCall N N] amerF_def)
  have bk: "americanBack ar st K p discount isCall (N - 1) (prog N ?V (N - 1) 0, prog N ?F (N - 1) 0)
              = Inr (full N ?V, full N ?F)"
  proof (intro americanBack_prog)
    fix i j :: int assume "i < N"
    then show "?V i j = (if jgt (payoff ar (to_num (peek st i j)) K isCall)
                        (holdValue ar p discount (Some (?V (i + 1) (j + 1))) (Some (?V (i + 1) j)))
                  then payoff ar (to_num (peek st i j)) K isCall
                  else holdValue ar p discount (Some (?V (i + 1) (j + 1))) (Some (?V (i + 1) j)))"
      by (subst amerV.simps) simp
    from \<open>i < N\<close> show "?F i j = jgt (payoff ar (to_num (peek st i j)) K isCall)
                        (holdValue ar p discount (Some (?V (i + 1) (j + 1))) (Some (?V (i + 1) j)))"
      by (simp add: amerF_def)
  qed (use assms in auto)
  show ?thesis by (simp add: priceAmerican_def init tp bk)
qed

lemma elems_full: "elems (full N V) i = (if 0 \<le> i \<and> i \<le> N then Some (filled (i + 1) (V i)) else None)"
  by (auto simp: full_def filled_def)

lemma len_full [simp]: "len (full N V) = N + 1"
  by (simp add: full_def)

lemma peek_full: "peek (full N V) i j = (if 0 \<le> j \<and> j \<le> i \<and> i \<le> N then Some (V i j) else None)"
  by (auto simp: peek_def elems_full filled_def)

lemma get2_full: "0 \<le> i \<Longrightarrow> i \<le> N \<Longrightarrow> get2 (full N V) i j = Inr (peek (full N V) i j)"
  by (simp add: get2_def peek_def elems_full)

section \<open>Closed form of the pipeline\<close>

lemma get2_peek: "elems t i \<noteq> None \<Longrightarrow> get2 t i j = Inr (peek t i j)"
  by (auto simp: get2_def peek_def)

lemma collectNode_peek:
  assumes "elems ee i \<noteq> None" "elems st i \<noteq> None" "elems ot i \<noteq> None"
  shows "collectNode st ot ee i j nodes
         = Inr (nodes @ (if peek ee i j = Some True then [nodeAt st ot i j] else []))"
  using assms by (simp add: collectNode_def get2_peek nodeAt_def)

lemma collectRow_peek:
  assumes "elems ee i \<noteq> None" "elems st i \<noteq> None" "elems ot i \<noteq> None"
  shows "collectRow st ot ee i j nodes
         = Inr (nodes @ map (nodeAt st ot i) (filter (\<lambda>j. peek ee i j = Some True) [j..i]))"
proof (induction "nat (i + 1 - j)" arbitrary: j nodes)
  case 0
  then have "i < j" by simp
  then show ?case by (subst collectRow.simps) simp
next
  case (Suc n)
  then have le: "j \<le> i" by simp
  have up: "[j..i] = j # [j + 1..i]" using le by (simp add: upto_rec1)
  have "collectRow st ot ee i (j + 1) nodes'
        = Inr (nodes' @ map (nodeAt st ot i) (filter (\<lambda>j. peek ee i j = Some True) [j + 1..i]))"
    for nodes'
    using Suc by (intro Suc(1)) auto
  then show ?case
    using le by (subst collectRow.simps) (simp add: collectNode_peek [OF assms] up)
qed

lemma collectLoop_peek:
  assumes "\<And>k. 0 \<le> k \<Longrightarrow> k < N \<Longrightarrow> elems ee k \<noteq> None \<and> elems st k \<noteq> None \<and> elems ot k \<noteq> None"
  shows "0 \<le> i \<Longrightarrow> collectLoop st ot ee N i nodes
         = Inr (nodes @ concat (map (\<lambda>i. map (nodeAt st ot i) (filter (\<lambda>j. peek ee i j = Some True) [0..i]))
                                [i..N - 1]))"
proof (induction "nat (N - i)" arbitrary: i nodes)
  case 0
  then have "N \<le> i" by simp
  then show ?case by (subst collectLoop.simps) simp
next
  case (Suc n)
  then have lt: "i < N" by simp
  have up: "[i..N - 1] = i # [i + 1..N - 1]" using lt by (simp add: upto_rec1)
  have row: "collectRow st ot ee i 0 nodes
         = Inr (nodes @ map (nodeAt st ot i) (filter (\<lambda>j. peek ee i j = Some True) [0..i]))"
    using assms [OF \<open>0 \<le> i\<close> lt] by (intro collectRow_peek) auto
  have "collectLoop st ot ee N (i + 1) nodes'
        = Inr (nodes' @ concat (map (\<lambda>i. map (nodeAt st ot i) (filter (\<lambda>j. peek ee i j = Some True) [0..i]))
                                [i + 1..N - 1]))" for nodes'
    using Suc by (intro Suc(1)) auto
  then show ?case
    using lt by (subst collectLoop.simps) (simp add: row up)
qed

lemma getEarlyExerciseNodes_peek:
  assumes "\<And>k. 0 \<le> k \<Longrightarrow> k < N \<Longrightarrow> elems ee k \<noteq> None \<and> elems st k \<noteq> None \<and> elems ot k \<noteq> None"
  shows "getEarlyExerciseNodes st ot ee N
         = Inr (concat (map (\<lambda>i. map (nodeAt st ot i) (filter (\<lambda>j. peek ee i j = Some True) [0..i]))
                            [0..N - 1]))"
  using collectLoop_peek [of N ee st ot 0 "[]"] assms by (simp add: getEarlyExerciseNodes_def)

lemma calculateDelta_full:
  "0 \<le> N \<Longrightarrow> calculateDelta ar (full N sp) (full N V)
   = Inr (if N < 1 then Fin 0 else jdiv ar (jsub ar (V 1 1) (V 1 0)) (jsub ar (sp 1 1) (sp 1 0)))"
  by (simp add: calculateDelta_def get2_full peek_full)

lemma calculateGamma_full:
  "0 \<le> N \<Longrightarrow> calculateGamma ar (full N sp) (full N V)
   = Inr (if N < 2 then Fin 0
          else jdiv ar (jsub ar (jdiv ar (jsub ar (V 2 2) (V 2 1)) (jsub ar (sp 2 2) (sp 2 1)))
                          (jdiv ar (jsub ar (V 2 1) (V 2 0)) (jsub ar (sp 2 1) (sp 2 0))))
                    (jmul ar (Fin (1 / 2)) (jsub ar (sp 2 2) (sp 2 0))))"
  by (simp add: calculateGamma_def get2_full peek_full)


lemma stockOf_full:
  "0 \<le> par_N ps \<Longrightarrow>
   stockOf ar ps = full (par_N ps) (stockPrice ar (par_S ps) (crr_u (crrOf ar ps)) (crr_d (crrOf ar ps)))"
  by (simp add: stockOf_def buildStockTree_full)

lemma pricing_full:
  assumes "0 \<le> par_N ps"
  shows "(if par_isAmerican ps
          then priceAmerican ar (stockOf ar ps) (par_K ps) (crr_p (crrOf ar ps)) (crr_discount (crrOf ar ps))
                 (par_isCall ps) (par_N ps)
          else priceEuropean ar (stockOf ar ps) (par_K ps) (crr_p (crrOf ar ps)) (crr_discount (crrOf ar ps))
                 (par_isCall ps) (par_N ps))
         = Inr (full (par_N ps) (valueOf ar ps), full (par_N ps) (flagOf ar ps))"
proof -
  have rows: "elems (stockOf ar ps) i \<noteq> None" if "0 \<le> i" "i \<le> par_N ps" for i
    using that assms by (simp add: stockOf_full elems_full)
  show ?thesis
  proof (cases "par_isAmerican ps")
    case True
    then show ?thesis
      using priceAmerican_full [OF assms, of "stockOf ar ps"] rows
      by (simp add: valueOf_def flagOf_def)
  next
    case False
    then show ?thesis
      using priceEuropean_full [OF assms, of "stockOf ar ps"] rows [of "par_N ps"] assms
      by (simp add: valueOf_def flagOf_def)
  qed
qed

lemma priceBinomialTree_full:
  assumes "0 \<le> par_N ps"
  shows "priceBinomialTree ar ps =
    Inr \<lparr>res_crr = crrOf ar ps,
         res_stockTree = stockOf ar ps,
         res_optionTree = full (par_N ps) (valueOf ar ps),
         res_earlyExercise = full (par_N ps) (flagOf ar ps),
         res_price = Some (valueOf ar ps 0 0),
         res_delta =
           (if par_N ps < 1 then Fin 0
            else jdiv ar (jsub ar (valueOf ar ps 1 1) (valueOf ar ps 1 0))
                   (jsub ar (stockPrice ar (par_S ps) (crr_u (crrOf ar ps)) (crr_d (crrOf ar ps)) 1 1)
                         (stockPrice ar (par_S ps) (crr_u (crrOf ar ps)) (crr_d (crrOf ar ps)) 1 0))),
         res_gamma =
           (if par_N ps < 2 then Fin 0
            else jdiv ar
                   (jsub ar (jdiv ar (jsub ar (valueOf ar ps 2 2) (valueOf ar ps 2 1))
                            (jsub ar (stockPrice ar (par_S ps) (crr_u (crrOf ar ps)) (crr_d (crrOf ar ps)) 2 2)
                                  (stockPrice ar (par_S ps) (crr_u (crrOf ar ps)) (crr_d (crrOf ar ps)) 2 1)))
                         (jdiv ar (jsub ar (valueOf ar ps 2 1) (valueOf ar ps 2 0))
                            (jsub ar (stockPrice ar (par_S ps) (crr_u (crrOf ar ps)) (crr_d (crrOf ar ps)) 2 1)
                                  (stockPrice ar (par_S ps) (crr_u (crrOf ar ps)) (crr_d (crrOf ar ps)) 2 0))))
                   (jmul ar (Fin (1 / 2))
                      (jsub ar (stockPrice ar (par_S ps) (crr_u (crrOf ar ps)) (crr_d (crrOf ar ps)) 2 2)
                            (stockPrice ar (par_S ps) (crr_u (crrOf ar ps)) (crr_d (crrOf ar ps)) 2 0)))),
         res_earlyExerciseNodes =
           (if par_isAmerican ps
            then concat (map (\<lambda>i. map (nodeAt (stockOf ar ps) (full (par_N ps) (valueOf ar ps)) i)
                                      (filter (\<lambda>j. peek (full (par_N ps) (flagOf ar ps)) i j = Some True) [0..i]))
                           [0..par_N ps - 1])
            else [])\<rparr>"
proof -
  let ?N = "par_N ps"
  let ?sp = "stockPrice ar (par_S ps) (crr_u (crrOf ar ps)) (crr_d (crrOf ar ps))"
  have st: "stockOf ar ps = full ?N ?sp" using assms by (rule stockOf_full)
  have pr: "(if par_isAmerican ps
          then priceAmerican ar (full ?N ?sp) (par_K ps) (crr_p (crrOf ar ps)) (crr_discount (crrOf ar ps))
                 (par_isCall ps) ?N
          else priceEuropean ar (full ?N ?sp) (par_K ps) (crr_p (crrOf ar ps)) (crr_discount (crrOf ar ps))
                 (par_isCall ps) ?N)
         = Inr (full ?N (valueOf ar ps), full ?N (flagOf ar ps))"
    using pricing_full [OF assms, where ar = ar] unfolding st .
  have nd: "getEarlyExerciseNodes (full ?N ?sp) (full ?N (valueOf ar ps)) (full ?N (flagOf ar ps)) ?N
        = Inr (concat (map (\<lambda>i. map (nodeAt (full ?N ?sp) (full ?N (valueOf ar ps)) i)
                                      (filter (\<lambda>j. peek (full ?N (flagOf ar ps)) i j = Some True) [0..i]))
                           [0..?N - 1]))"
    by (intro getEarlyExerciseNodes_peek) (simp add: elems_full)
  have g: "get2 (full ?N (valueOf ar ps)) 0 0 = Inr (Some (valueOf ar ps 0 0))"
    using assms by (simp add: get2_full peek_full)
  have c: "(if par_isCustomUD ps
               then calculateCRRParams ar (par_S ps) (par_K ps) (par_r ps) (par_sigma ps) (par_T ps)
                      (par_N ps) (par_customU ps) (par_customD ps)
               else calculateCRRParams ar (par_S ps) (par_K ps) (par_r ps) (par_sigma ps) (par_T ps)
                      (par_N ps) None None) = crrOf ar ps"
    by (simp add: crrOf_def)
  have b: "buildStockTree ar (par_S ps) (crr_u (crrOf ar ps)) (crr_d (crrOf ar ps)) ?N = full ?N ?sp"
    using st by (simp add: stockOf_def)
  show ?thesis
    unfolding priceBinomialTree_def Let_def c b pr
    by (simp add: calculateDelta_full [OF assms] calculateGamma_full [OF assms] nd g st)
qed

lemma peek_stockOf:
  "0 \<le> par_N ps \<Longrightarrow> peek (stockOf ar ps) i j =
     (if 0 \<le> j \<and> j \<le> i \<and> i \<le> par_N ps
      then Some (stockPrice ar (par_S ps) (crr_u (crrOf ar ps)) (crr_d (crrOf ar ps)) i j) else None)"
  by (simp add: stockOf_full peek_full)

section \<open>Order and monotone rounding\<close>

lemma jgt_irrefl [simp]: "\<not> jgt x x"
  by (cases x) auto

lemma jgt_NaN_right [simp]: "\<not> jgt x NaN"
  by (cases x) auto

lemma jneg_jneg [simp]: "jneg (jneg x) = x"
  by (cases x) auto

lemma fin_zero [simp]: "fin ar 0 = Fin 0"
  by (simp add: fin_def)

lemma fin_minus: "fin ar (- x) = jneg (fin ar x)"
  by (simp add: fin_def)

lemma jge_simps [simp]:
  "jge (Fin x) (Fin y) \<longleftrightarrow> y \<le> x"
  "jge PInf a \<longleftrightarrow> a \<noteq> NaN"
  "jge a NInf \<longleftrightarrow> a \<noteq> NaN"
  "jge a PInf \<longleftrightarrow> a = PInf"
  "jge NInf a \<longleftrightarrow> a = NInf"
  "\<not> jge NaN a" "\<not> jge a NaN"
  by (cases a; auto simp: jge_def)+

lemma jge_refl: "a \<noteq> NaN \<Longrightarrow> jge a a"
  by (simp add: jge_def)

lemma jge_trans: "jge a b \<Longrightarrow> jge b c \<Longrightarrow> jge a c"
  by (cases a; cases b; cases c) auto

lemma jgt_imp_jge: "jgt a b \<Longrightarrow> jge a b"
  by (cases a; cases b) auto

lemma not_jgt_imp_jge: "\<not> jgt a b \<Longrightarrow> a \<noteq> NaN \<Longrightarrow> b \<noteq> NaN \<Longrightarrow> jge b a"
  by (simp add: jge_def)

lemma jadd_NaN: "jadd ar a b \<noteq> NaN \<Longrightarrow> a \<noteq> NaN \<and> b \<noteq> NaN"
  by (cases a; cases b) auto

lemma jmul_NaN: "jmul ar a b \<noteq> NaN \<Longrightarrow> a \<noteq> NaN \<and> b \<noteq> NaN"
  by (cases a; cases b) auto

lemma fin_mono: "monotone_rounding ar \<Longrightarrow> x \<le> y \<Longrightarrow> jge (fin ar y) (fin ar x)"
  by (simp add: monotone_rounding_def)

lemma fin_not_NaN: "monotone_rounding ar \<Longrightarrow> fin ar x \<noteq> NaN"
  using fin_mono [of ar x x] by (auto simp: jge_def)

lemma fin_nonneg: "monotone_rounding ar \<Longrightarrow> 0 \<le> x \<Longrightarrow> jge (fin ar x) (Fin 0)"
  using fin_mono [of ar 0 x] by simp

lemma jadd_mono:
  assumes "monotone_rounding ar" "jge a' a" "jge b' b"
    and "jadd ar a b \<noteq> NaN" "jadd ar a' b' \<noteq> NaN"
  shows "jge (jadd ar a' b') (jadd ar a b)"
  using assms
  by (cases a; cases a'; cases b; cases b') (auto simp: fin_mono fin_not_NaN)

lemma jmul_mono:
  assumes "monotone_rounding ar" "jge c (Fin 0)" "jge a' a"
    and "jmul ar c a \<noteq> NaN" "jmul ar c a' \<noteq> NaN"
  shows "jge (jmul ar c a') (jmul ar c a)"
  using assms
  by (cases c; cases a; cases a')
     (auto simp: fin_mono fin_not_NaN inf_of_def mult_left_mono split: if_splits)


lemma holdValue_NaN_child:
  "holdValue ar p d (Some NaN) down = NaN" "holdValue ar p d up (Some NaN) = NaN"
proof -
  have m: "jmul ar x NaN = NaN" for x by (cases x) auto
  have a: "jadd ar x NaN = NaN" for x by (cases x) auto
  show "holdValue ar p d (Some NaN) down = NaN" by (simp add: holdValue_def m)
  show "holdValue ar p d up (Some NaN) = NaN" by (simp add: holdValue_def m a)
qed

lemma holdValue_mono:
  assumes M: "monotone_rounding ar" and p: "0 \<le> pp" "pp \<le> 1" and d: "jge d (Fin 0)"
    and c: "jge a1 e1" "jge a0 e0"
    and n: "holdValue ar (Fin pp) d (Some a1) (Some a0) \<noteq> NaN"
           "holdValue ar (Fin pp) d (Some e1) (Some e0) \<noteq> NaN"
  shows "jge (holdValue ar (Fin pp) d (Some a1) (Some a0)) (holdValue ar (Fin pp) d (Some e1) (Some e0))"
proof -
  let ?q = "jsub ar (Fin 1) (Fin pp)"
  have q: "jge ?q (Fin 0)"
    using fin_nonneg [OF M, of "1 - pp"] p by (simp add: jsub_def)
  have pf: "jge (Fin pp) (Fin 0)" using p by simp
  let ?sa = "jadd ar (jmul ar (Fin pp) a1) (jmul ar ?q a0)"
  let ?se = "jadd ar (jmul ar (Fin pp) e1) (jmul ar ?q e0)"
  have ha: "holdValue ar (Fin pp) d (Some a1) (Some a0) = jmul ar d ?sa"
    and he: "holdValue ar (Fin pp) d (Some e1) (Some e0) = jmul ar d ?se"
    by (simp_all add: holdValue_def)
  have sa: "?sa \<noteq> NaN" and se: "?se \<noteq> NaN"
    using n jmul_NaN unfolding ha he by blast+
  have ta: "jmul ar (Fin pp) a1 \<noteq> NaN" "jmul ar ?q a0 \<noteq> NaN"
    using sa jadd_NaN by blast+
  have te: "jmul ar (Fin pp) e1 \<noteq> NaN" "jmul ar ?q e0 \<noteq> NaN"
    using se jadd_NaN by blast+
  have 1: "jge (jmul ar (Fin pp) a1) (jmul ar (Fin pp) e1)"
    using M pf c(1) te(1) ta(1) by (rule jmul_mono)
  have 0: "jge (jmul ar ?q a0) (jmul ar ?q e0)"
    using M q c(2) te(2) ta(2) by (rule jmul_mono)
  have s: "jge ?sa ?se"
    using M 1 0 se sa by (rule jadd_mono)
  show ?thesis
    unfolding ha he using M d s n [unfolded ha he] by (intro jmul_mono) auto
qed

lemma amer_ge_euro_nodes:
  assumes M: "monotone_rounding ar" and p: "0 \<le> pp" "pp \<le> 1" and d: "jge d (Fin 0)"
    and nn: "\<And>i j. 0 \<le> j \<Longrightarrow> j \<le> i \<Longrightarrow> i \<le> N \<Longrightarrow>
               euroV ar st K (Fin pp) d c N i j \<noteq> NaN \<and> amerV ar st K (Fin pp) d c N i j \<noteq> NaN"
  shows "0 \<le> j \<Longrightarrow> j \<le> i \<Longrightarrow> i \<le> N \<Longrightarrow>
         jge (amerV ar st K (Fin pp) d c N i j) (euroV ar st K (Fin pp) d c N i j)"
proof (induction "nat (N - i)" arbitrary: i j)
  case 0
  then have i: "i = N" by simp
  have "amerV ar st K (Fin pp) d c N N j = euroV ar st K (Fin pp) d c N N j"
    by (subst amerV.simps, subst euroV.simps) simp
  then show ?case
    unfolding i using nn [of j N] 0 i by (simp add: jge_refl)
next
  case (Suc n)
  then have lt: "i < N" by simp
  have n: "n = nat (N - (i + 1))" using Suc(2) by linarith
  let ?A = "amerV ar st K (Fin pp) d c N" and ?E = "euroV ar st K (Fin pp) d c N"
  let ?ex = "payoff ar (to_num (peek st i j)) K c"
  let ?hA = "holdValue ar (Fin pp) d (Some (?A (i + 1) (j + 1))) (Some (?A (i + 1) j))"
  let ?hE = "holdValue ar (Fin pp) d (Some (?E (i + 1) (j + 1))) (Some (?E (i + 1) j))"
  have c1: "jge (?A (i + 1) (j + 1)) (?E (i + 1) (j + 1))"
    using Suc(1) [OF n, of "j + 1"] Suc(3-) lt by simp
  have c0: "jge (?A (i + 1) j) (?E (i + 1) j)"
    using Suc(1) [OF n, of j] Suc(3-) lt by simp
  have e: "?E i j = ?hE"
    using lt by (subst euroV.simps) simp
  have a: "?A i j = (if jgt ?ex ?hA then ?ex else ?hA)"
    using lt by (subst amerV.simps) simp
  have ne: "?hE \<noteq> NaN" and na: "?A i j \<noteq> NaN"
    using nn [of j i] Suc(3-) e by auto
  have nh: "?hA \<noteq> NaN"
  proof
    assume "?hA = NaN"
    then have "?A i j = NaN" unfolding a by simp
    with na show False by simp
  qed
  have h: "jge ?hA ?hE"
    using M p d c1 c0 nh ne by (rule holdValue_mono)
  show ?case
  proof (cases "jgt ?ex ?hA")
    case True
    then have "jge ?ex ?hA" by (rule jgt_imp_jge)
    then have "jge ?ex ?hE" using h by (rule jge_trans)
    then show ?thesis unfolding e a using True by simp
  next
    case False
    then show ?thesis unfolding e a using h by simp
  qed
qed

lemma euroV_NaN_up:
  "0 \<le> j \<Longrightarrow> j \<le> i \<Longrightarrow> i \<le> N \<Longrightarrow> euroV ar st K p d c N i j = NaN \<Longrightarrow>
   euroV ar st K p d c N 0 0 = NaN"
proof (induction "nat i" arbitrary: i j)
  case 0
  then have "i = 0" "j = 0" by simp_all
  with 0 show ?case by simp
next
  case (Suc n)
  then have i: "0 < i" by simp
  define j' where "j' = (if j \<le> i - 1 then j else j - 1)"
  have j': "0 \<le> j'" "j' \<le> i - 1" "j = j' \<or> j = j' + 1"
    using Suc(3,4) i by (auto simp: j'_def)
  have "euroV ar st K p d c N (i - 1) j'
        = holdValue ar p d (Some (euroV ar st K p d c N i (j' + 1))) (Some (euroV ar st K p d c N i j'))"
    using Suc(5) by (subst euroV.simps) simp
  also have "\<dots> = NaN"
    using j'(3) Suc(6) by (auto simp: holdValue_NaN_child)
  finally have "euroV ar st K p d c N (i - 1) j' = NaN" .
  moreover have "n = nat (i - 1)" using Suc(2) by linarith
  ultimately show ?case
    using Suc(1) [of "i - 1" j'] j' Suc(5) by simp
qed

lemma amerV_NaN_up:
  "0 \<le> j \<Longrightarrow> j \<le> i \<Longrightarrow> i \<le> N \<Longrightarrow> amerV ar st K p d c N i j = NaN \<Longrightarrow>
   amerV ar st K p d c N 0 0 = NaN"
proof (induction "nat i" arbitrary: i j)
  case 0
  then have "i = 0" "j = 0" by simp_all
  with 0 show ?case by simp
next
  case (Suc n)
  then have i: "0 < i" by simp
  define j' where "j' = (if j \<le> i - 1 then j else j - 1)"
  have j': "0 \<le> j'" "j' \<le> i - 1" "j = j' \<or> j = j' + 1"
    using Suc(3,4) i by (auto simp: j'_def)
  have h: "holdValue ar p d (Some (amerV ar st K p d c N i (j' + 1))) (Some (amerV ar st K p d c N i j')) = NaN"
    using j'(3) Suc(6) by (auto simp: holdValue_NaN_child)
  have "amerV ar st K p d c N (i - 1) j' = NaN"
    using Suc(5) by (subst amerV.simps) (simp add: h)
  moreover have "n = nat (i - 1)" using Suc(2) by linarith
  ultimately show ?case
    using Suc(1) [of "i - 1" j'] j' Suc(5) by simp
qed

section \<open>Parts of a result\<close>

lemma result_parts:
  assumes "0 \<le> par_N ps" "priceBinomialTree ar ps = Inr res"
  shows "res_stockTree res = stockOf ar ps" "res_crr res = crrOf ar ps"
  using assms(2) unfolding priceBinomialTree_full [OF assms(1)] by auto

lemma result_trees:
  assumes "0 \<le> par_N ps" "priceBinomialTree ar ps = Inr res"
  shows "res_optionTree res = full (par_N ps) (valueOf ar ps)"
    and "res_earlyExercise res = full (par_N ps) (flagOf ar ps)"
    and "res_price res = Some (valueOf ar ps 0 0)"
  using assms(2) unfolding priceBinomialTree_full [OF assms(1)] by auto

lemma result_nodes:
  assumes "0 \<le> par_N ps" "priceBinomialTree ar ps = Inr res"
  shows "res_earlyExerciseNodes res =
           (if par_isAmerican ps
            then concat (map (\<lambda>i. map (nodeAt (res_stockTree res) (res_optionTree res) i)
                                  (filter (\<lambda>j. peek (res_earlyExercise res) i j = Some True) [0..i]))
                           [0..par_N ps - 1])
            else [])"
  using assms(2) unfolding priceBinomialTree_full [OF assms(1)] by auto

lemma crrOf_isAmerican: "crrOf ar (ps\<lparr>par_isAmerican := a\<rparr>) = crrOf ar ps"
  by (simp add: crrOf_def)

lemma stockOf_isAmerican: "stockOf ar (ps\<lparr>par_isAmerican := a\<rparr>) = stockOf ar ps"
  by (simp add: stockOf_def crrOf_isAmerican)

lemma rows_stockOf:
  "0 \<le> par_N ps \<Longrightarrow> \<forall>i. 0 \<le> i \<and> i \<le> par_N ps \<longrightarrow> elems (stockOf ar ps) i \<noteq> None"
  by (simp add: stockOf_full elems_full)

lemma jdiv_zero_divisor: "jdiv ar x (jsub ar u u) = PInf \<or> jdiv ar x (jsub ar u u) = NInf \<or> jdiv ar x (jsub ar u u) = NaN"
  by (cases x; cases u) (auto simp: jsub_def inf_of_def)

lemma crr_p_formula:
  "crr_p (crrOf ar ps) = jdiv ar (jsub ar (jexp ar (jmul ar (par_r ps) (crr_dt (crrOf ar ps)))) (crr_d (crrOf ar ps)))
                           (jsub ar (crr_u (crrOf ar ps)) (crr_d (crrOf ar ps)))"
  by (simp add: crrOf_def calculateCRRParams_def Let_def)

lemma crr_p_degenerate:
  assumes "crr_u (crrOf ar ps) = crr_d (crrOf ar ps)"
  shows "crr_p (crrOf ar ps) = PInf \<or> crr_p (crrOf ar ps) = NInf \<or> crr_p (crrOf ar ps) = NaN"
  unfolding crr_p_formula assms by (rule jdiv_zero_divisor)

lemma amerV_not_gt:
  "i \<le> N \<Longrightarrow> \<not> jgt (payoff ar (to_num (peek st i j)) K c) (amerV ar st K p discount c N i j)"
  by (subst amerV.simps) auto

lemma amerV_exercised:
  "amerF ar st K p discount c N i j \<or> i = N \<Longrightarrow>
   amerV ar st K p discount c N i j = payoff ar (to_num (peek st i j)) K c"
  by (subst amerV.simps) (auto simp: amerF_def)

lemma sorted_wrt_concat_map:
  assumes "\<And>x. x \<in> set xs \<Longrightarrow> sorted_wrt R (f x)"
    and "sorted_wrt (\<lambda>x y. \<forall>a\<in>set (f x). \<forall>b\<in>set (f y). R a b) xs"
  shows "sorted_wrt R (concat (map f xs))"
  using assms by (induction xs) (auto simp: sorted_wrt_append)

lemma records_sorted:
  "sorted_wrt node_before
     (concat (map (\<lambda>i. map (nodeAt st ot i) (filter (P i) [0..i])) [0..M]))"
proof (rule sorted_wrt_concat_map)
  fix i
  have "sorted_wrt (\<lambda>a b. node_before (nodeAt st ot i a) (nodeAt st ot i b)) [0..i]"
    by (rule sorted_wrt_mono_rel [OF _ sorted_wrt_upto]) (simp add: node_before_def nodeAt_def)
  then show "sorted_wrt node_before (map (nodeAt st ot i) (filter (P i) [0..i]))"
    by (simp add: sorted_wrt_map sorted_wrt_filter)
next
  show "sorted_wrt (\<lambda>x y. \<forall>a\<in>set (map (nodeAt st ot x) (filter (P x) [0..x])).
                          \<forall>b\<in>set (map (nodeAt st ot y) (filter (P y) [0..y])). node_before a b) [0..M]"
    by (rule sorted_wrt_mono_rel [OF _ sorted_wrt_upto]) (auto simp: node_before_def nodeAt_def)
qed

lemma set_concat_map_filter:
  "set (concat (map (\<lambda>i. map (g i) (filter (P i) (h i))) xs))
   = {g i j | i j. i \<in> set xs \<and> j \<in> set (h i) \<and> P i j}"
  by fastforce

lemma records_set:
  "set (concat (map (\<lambda>i. map (nodeAt st ot i) (filter (P i) [0..i])) [0..M]))
   = {nodeAt st ot i j | i j. 0 \<le> j \<and> j \<le> i \<and> i \<le> M \<and> P i j}"
  unfolding set_concat_map_filter
proof (rule Collect_cong)
  fix x
  show "(\<exists>i j. x = nodeAt st ot i j \<and> i \<in> set [0..M] \<and> j \<in> set [0..i] \<and> P i j)
        = (\<exists>i j. x = nodeAt st ot i j \<and> 0 \<le> j \<and> j \<le> i \<and> i \<le> M \<and> P i j)"
    by (simp add: conj_commute conj_left_commute) (metis order_trans)
qed

lemma example_put_American: "example_put\<lparr>par_isAmerican := True\<rparr> = example_put"
  by (simp add: example_put_def)

section \<open>Evaluating runs in the plain arithmetic\<close>

lemma ovf_neg: "ovf (- x) = jneg (ovf x)"
  by (simp add: ovf_def)

lemma fin_plain: "fin plain x = ovf x"
  by (auto simp: fin_def plain_def ovf_def)

lemma lib_pow_plain: "0 < n \<Longrightarrow> lib_pow plain x n = ovf (x ^ nat n)"
  by (simp add: plain_def)

lemma lib_exp_plain: "lib_exp plain x = ovf (exp x)"
  by (simp add: plain_def)

lemma lib_sqrt_plain: "lib_sqrt plain x = ovf (sqrt x)"
  by (simp add: plain_def)

lemma ovf_below: "\<bar>x\<bar> < 2 ^ 1024 \<Longrightarrow> ovf x = Fin x"
  by (auto simp: ovf_def)

lemma ovf_small: "\<bar>x\<bar> \<le> 1000 \<Longrightarrow> ovf x = Fin x"
proof -
  assume "\<bar>x\<bar> \<le> 1000"
  moreover have "(1000::real) < 2 ^ 1024"
    by (rule less_le_trans [of _ "2 ^ 10"]) (simp, rule power_increasing, simp_all)
  ultimately show ?thesis by (auto simp: ovf_def)
qed

lemmas plain_eval = fin_plain lib_pow_plain ovf_small jsub_def

lemma crrOf_example:
  "crrOf plain (example_params\<lparr>par_isAmerican := a\<rparr>)
   = \<lparr>crr_dt = Fin (1 / 2), crr_u = Fin (3 / 4), crr_d = Fin (1 / 2), crr_p = Fin 2,
      crr_discount = Fin 1\<rparr>"
  by (simp add: crrOf_def example_params_def calculateCRRParams_def Let_def plain_eval)

lemma fields_example:
  "par_N (example_params\<lparr>par_isAmerican := a\<rparr>) = 2"
  "par_S (example_params\<lparr>par_isAmerican := a\<rparr>) = Fin 16"
  "par_K (example_params\<lparr>par_isAmerican := a\<rparr>) = Fin 5"
  "par_isCall (example_params\<lparr>par_isAmerican := a\<rparr>)"
  "par_isAmerican (example_params\<lparr>par_isAmerican := a\<rparr>) = a"
  by (simp_all add: example_params_def)

lemma stock_example:
  "peek (stockOf plain (example_params\<lparr>par_isAmerican := a\<rparr>)) 0 0 = Some (Fin 16)"
  "peek (stockOf plain (example_params\<lparr>par_isAmerican := a\<rparr>)) 1 0 = Some (Fin 8)"
  "peek (stockOf plain (example_params\<lparr>par_isAmerican := a\<rparr>)) 1 1 = Some (Fin 12)"
  "peek (stockOf plain (example_params\<lparr>par_isAmerican := a\<rparr>)) 2 0 = Some (Fin 4)"
  "peek (stockOf plain (example_params\<lparr>par_isAmerican := a\<rparr>)) 2 1 = Some (Fin 6)"
  "peek (stockOf plain (example_params\<lparr>par_isAmerican := a\<rparr>)) 2 2 = Some (Fin 9)"
  by (simp_all add: peek_stockOf crrOf_example stockPrice_def fields_example plain_eval power2_eq_square)

lemma payoff_plain:
  "\<bar>s - k\<bar> \<le> 1000 \<Longrightarrow>
   payoff plain (Fin s) (Fin k) c = Fin (if c then max (s - k) 0 else max (k - s) 0)"
  by (auto simp: payoff_def jmax_def max_def plain_eval)

lemma holdValue_plain:
  "\<bar>p * a\<bar> \<le> 1000 \<Longrightarrow> \<bar>(1 - p) * b\<bar> \<le> 1000 \<Longrightarrow> \<bar>1 - p\<bar> \<le> 1000 \<Longrightarrow>
   \<bar>p * a + (1 - p) * b\<bar> \<le> 1000 \<Longrightarrow> \<bar>d * (p * a + (1 - p) * b)\<bar> \<le> 1000 \<Longrightarrow>
   holdValue plain (Fin p) (Fin d) (Some (Fin a)) (Some (Fin b)) = Fin (d * (p * a + (1 - p) * b))"
  by (simp add: holdValue_def plain_eval)

lemma value_example:
  "valueOf plain (example_params\<lparr>par_isAmerican := False\<rparr>) 0 0 = Fin 12"
  "valueOf plain (example_params\<lparr>par_isAmerican := True\<rparr>) 0 0 = Fin 11"
  by (simp_all add: valueOf_def fields_example crrOf_example stock_example euroV.simps amerV.simps
        payoff_plain holdValue_plain)

lemma fields_put:
  "par_N (example_put\<lparr>par_isAmerican := a\<rparr>) = 1"
  "par_S (example_put\<lparr>par_isAmerican := a\<rparr>) = Fin 4"
  "par_K (example_put\<lparr>par_isAmerican := a\<rparr>) = Fin 5"
  "\<not> par_isCall (example_put\<lparr>par_isAmerican := a\<rparr>)"
  "par_isAmerican (example_put\<lparr>par_isAmerican := a\<rparr>) = a"
  by (simp_all add: example_put_def)

lemma fields_flat:
  "par_N example_flat = 1" "par_S example_flat = Fin 16" "par_K example_flat = Fin 5"
  "par_isCall example_flat" "par_isAmerican example_flat"
  by (simp_all add: example_flat_def)

lemma fields_three:
  "par_N example_three = 3" "par_S example_three = Fin 16" "par_K example_three = Fin 5"
  "par_isCall example_three" "par_isAmerican example_three"
  by (simp_all add: example_three_def example_params_def)

lemma crrOf_put:
  "crrOf plain (example_put\<lparr>par_isAmerican := a\<rparr>)
   = \<lparr>crr_dt = Fin 1, crr_u = Fin (3 / 2), crr_d = Fin (1 / 2), crr_p = Fin (1 / 2),
      crr_discount = Fin 1\<rparr>"
  by (simp add: crrOf_def example_put_def calculateCRRParams_def Let_def plain_eval)

lemma stock_put:
  "peek (stockOf plain (example_put\<lparr>par_isAmerican := a\<rparr>)) 0 0 = Some (Fin 4)"
  "peek (stockOf plain (example_put\<lparr>par_isAmerican := a\<rparr>)) 1 0 = Some (Fin 2)"
  "peek (stockOf plain (example_put\<lparr>par_isAmerican := a\<rparr>)) 1 1 = Some (Fin 6)"
  by (simp_all add: peek_stockOf crrOf_put stockPrice_def fields_put plain_eval)

lemma value_put:
  "valueOf plain (example_put\<lparr>par_isAmerican := a\<rparr>) 1 1 = Fin 0"
  "valueOf plain (example_put\<lparr>par_isAmerican := a\<rparr>) 1 0 = Fin 3"
  "valueOf plain (example_put\<lparr>par_isAmerican := a\<rparr>) 0 0 = Fin (3 / 2)"
  by (cases a; simp add: valueOf_def fields_put crrOf_put stock_put euroV.simps amerV.simps
        payoff_plain holdValue_plain)+

lemma amerV_put:
  "amerV plain (stockOf plain example_put) (Fin 5) (Fin (1 / 2)) (Fin 1) False 1 0 0 = Fin (3 / 2)"
  using stock_put [of True]
  by (simp add: example_put_American amerV.simps payoff_plain holdValue_plain)

lemma amerV_example:
  "amerV plain (stockOf plain example_params) (Fin 5) (Fin 2) (Fin 1) True 2 1 0 = Fin 3"
  "amerF plain (stockOf plain example_params) (Fin 5) (Fin 2) (Fin 1) True 2 1 0"
  using stock_example [of True] stockOf_isAmerican [where ps = example_params and a = True and ar = plain]
  by (simp_all add: amerV.simps amerF_def payoff_plain holdValue_plain)

lemma crrOf_flat:
  "crrOf plain example_flat
   = \<lparr>crr_dt = Fin 1, crr_u = Fin 1, crr_d = Fin 1, crr_p = NaN, crr_discount = Fin 1\<rparr>"
  by (simp add: crrOf_def example_flat_def calculateCRRParams_def Let_def plain_eval inf_of_def)

lemma stock_flat:
  "peek (stockOf plain example_flat) 0 0 = Some (Fin 16)"
  "peek (stockOf plain example_flat) 1 0 = Some (Fin 16)"
  "peek (stockOf plain example_flat) 1 1 = Some (Fin 16)"
  by (simp_all add: peek_stockOf crrOf_flat stockPrice_def fields_flat plain_eval)

lemma value_flat:
  "valueOf plain example_flat 1 1 = Fin 11" "valueOf plain example_flat 1 0 = Fin 11"
  "valueOf plain example_flat 0 0 = NaN"
  by (simp_all add: valueOf_def fields_flat crrOf_flat stock_flat amerV.simps
        payoff_plain holdValue_def)

lemma crrOf_three:
  "crrOf plain example_three
   = \<lparr>crr_dt = Fin 1, crr_u = Fin (3 / 4), crr_d = Fin (1 / 2), crr_p = Fin 2,
      crr_discount = Fin 1\<rparr>"
  by (simp add: crrOf_def example_three_def example_params_def calculateCRRParams_def Let_def plain_eval)

lemma stock_three:
  "peek (stockOf plain example_three) 0 0 = Some (Fin 16)"
  "peek (stockOf plain example_three) 1 0 = Some (Fin 8)"
  "peek (stockOf plain example_three) 1 1 = Some (Fin 12)"
  "peek (stockOf plain example_three) 2 0 = Some (Fin 4)"
  "peek (stockOf plain example_three) 2 1 = Some (Fin 6)"
  "peek (stockOf plain example_three) 2 2 = Some (Fin 9)"
  "peek (stockOf plain example_three) 3 0 = Some (Fin 2)"
  "peek (stockOf plain example_three) 3 1 = Some (Fin 3)"
  "peek (stockOf plain example_three) 3 2 = Some (Fin (9 / 2))"
  "peek (stockOf plain example_three) 3 3 = Some (Fin (27 / 4))"
  by (simp_all add: peek_stockOf crrOf_three stockPrice_def fields_three plain_eval
        power2_eq_square power3_eq_cube)

lemma value_three:
  "valueOf plain example_three 3 0 = Fin 0" "valueOf plain example_three 3 1 = Fin 0"
  "valueOf plain example_three 3 2 = Fin 0" "valueOf plain example_three 3 3 = Fin (7 / 4)"
  "valueOf plain example_three 2 0 = Fin 0" "valueOf plain example_three 2 1 = Fin 1"
  "valueOf plain example_three 2 2 = Fin 4"
  "valueOf plain example_three 1 0 = Fin 3" "valueOf plain example_three 1 1 = Fin 7"
  "valueOf plain example_three 0 0 = Fin 11"
  by (simp_all add: valueOf_def fields_three crrOf_three stock_three amerV.simps
        payoff_plain holdValue_plain)

lemma flag_three:
  "\<not> flagOf plain example_three 0 0"
  "flagOf plain example_three 1 0" "\<not> flagOf plain example_three 1 1"
  "\<not> flagOf plain example_three 2 0" "flagOf plain example_three 2 1" "flagOf plain example_three 2 2"
  using value_three
  by (simp_all add: flagOf_def valueOf_def amerF_def fields_three crrOf_three stock_three
        payoff_plain holdValue_plain)

section \<open>Properties of the CRR parameters\<close>

lemma jmul_jneg_left: "jmul ar (jneg a) b = jneg (jmul ar a b)"
  by (cases a; cases b) (auto simp: inf_of_def fin_minus)

lemma exp_1000_overflows: "(2::real) ^ 1024 \<le> exp 1000"
proof -
  have "(2::real) ^ 1024 = (2 ^ 4) ^ 256"
    by (simp only: power_mult [symmetric]) simp
  also have "\<dots> \<le> ((3 / 2) ^ 7) ^ 256"
    by (rule power_mono) (simp_all add: power_divide)
  also have "\<dots> = (3 / 2 :: real) ^ 1792"
    by (simp only: power_mult [symmetric]) simp
  also have "\<dots> \<le> (3 / 2) ^ 2000"
    by (rule power_increasing) simp_all
  also have "\<dots> \<le> exp (1 / 2) ^ 2000"
  proof (rule power_mono)
    show "(3::real) / 2 \<le> exp (1 / 2)"
      using exp_ge_add_one_self [of "1 / 2 :: real"] by simp
  qed simp
  also have "\<dots> = exp 1000"
    using exp_of_nat_mult [of 2000 "1 / 2 :: real"] by simp
  finally show ?thesis .
qed

text \<open>
  Claim C4. \<^verbatim>\<open>calculateCRRParams\<close> computes \<open>dt = T / N\<close>; when both custom factors are
  supplied it takes \<open>u = customU\<close> and \<open>d = customD\<close>, otherwise
  \<open>u = exp (sigma * sqrt dt)\<close> and \<open>d = 1 / u\<close>; in both cases
  \<open>p = (exp (r * dt) - d) / (u - d)\<close> and \<open>discount = exp (- (r * dt))\<close>.
\<close>

theorem crr_formulas:
  "let c = calculateCRRParams ar S K r sigma T N customU customD in
         crr_dt c = jdiv ar T (Fin (of_int N))
       \<and> (\<forall>cu cd. customU = Some cu \<and> customD = Some cd \<longrightarrow> crr_u c = cu \<and> crr_d c = cd)
       \<and> (customU = None \<or> customD = None \<longrightarrow>
            crr_u c = jexp ar (jmul ar sigma (jsqrt ar (crr_dt c))) \<and> crr_d c = jdiv ar (Fin 1) (crr_u c))
       \<and> crr_p c = jdiv ar (jsub ar (jexp ar (jmul ar r (crr_dt c))) (crr_d c)) (jsub ar (crr_u c) (crr_d c))
       \<and> crr_discount c = jexp ar (jneg (jmul ar r (crr_dt c)))"
  by (auto simp: calculateCRRParams_def Let_def jmul_jneg_left split: option.splits)

theorem crr_formulas_witness:
  "crr_dt (calculateCRRParams plain (Fin 16) (Fin 5) (Fin 0) (Fin 0) (Fin 1) 2 (Some (Fin (3/4))) (Some (Fin (1/2)))) = Fin (1/2)
 \<and> crr_u (calculateCRRParams plain (Fin 16) (Fin 5) (Fin 0) (Fin 0) (Fin 1) 2 (Some (Fin (3/4))) (Some (Fin (1/2)))) = Fin (3/4)
 \<and> crr_d (calculateCRRParams plain (Fin 16) (Fin 5) (Fin 0) (Fin 0) (Fin 1) 2 (Some (Fin (3/4))) (Some (Fin (1/2)))) = Fin (1/2)
 \<and> crr_p (calculateCRRParams plain (Fin 16) (Fin 5) (Fin 0) (Fin 0) (Fin 1) 2 (Some (Fin (3/4))) (Some (Fin (1/2)))) = Fin 2
 \<and> crr_discount (calculateCRRParams plain (Fin 16) (Fin 5) (Fin 0) (Fin 0) (Fin 1) 2 (Some (Fin (3/4))) (Some (Fin (1/2)))) = Fin 1
 \<and> crr_u (calculateCRRParams plain (Fin 16) (Fin 5) (Fin 0) (Fin 0) (Fin 4) 1 None (Some (Fin (1/2)))) = Fin 1
 \<and> crr_d (calculateCRRParams plain (Fin 16) (Fin 5) (Fin 0) (Fin 0) (Fin 4) 1 None (Some (Fin (1/2)))) = Fin 1
 \<and> crr_p (calculateCRRParams plain (Fin 16) (Fin 5) (Fin 0) (Fin 0) (Fin 4) 1 None (Some (Fin (1/2)))) = NaN"
  using crr_formulas [where ar = plain and S = "Fin 16" and K = "Fin 5" and r = "Fin 0"
          and sigma = "Fin 0" and T = "Fin 1" and N = 2 and customU = "Some (Fin (3/4))"
          and customD = "Some (Fin (1/2))"]
        crr_formulas [where ar = plain and S = "Fin 16" and K = "Fin 5" and r = "Fin 0"
          and sigma = "Fin 0" and T = "Fin 4" and N = 1 and customU = None
          and customD = "Some (Fin (1/2))"]
  by (simp add: Let_def plain_eval lib_sqrt_plain inf_of_def)

lemma rounded_product_near_one:
  fixes uu dd pd eps :: real
  assumes "0 < uu" and "\<bar>dd - 1 / uu\<bar> \<le> eps * \<bar>1 / uu\<bar>" and "\<bar>pd - uu * dd\<bar> \<le> eps * \<bar>uu * dd\<bar>"
  shows "\<bar>pd - 1\<bar> \<le> 2 * eps + eps\<^sup>2"
proof -
  have e0: "0 \<le> eps"
  proof (rule ccontr)
    assume "\<not> 0 \<le> eps"
    then have "eps * \<bar>1 / uu\<bar> < 0"
      using assms(1) by (intro mult_neg_pos) simp_all
    with assms(2) show False by simp
  qed
  have "\<bar>uu * dd - 1\<bar> = uu * \<bar>dd - 1 / uu\<bar>"
  proof -
    have "uu * dd - 1 = uu * (dd - 1 / uu)"
      using assms(1) by (simp add: field_simps)
    then show ?thesis
      using assms(1) by (simp add: abs_mult)
  qed
  also have "\<dots> \<le> uu * (eps * \<bar>1 / uu\<bar>)"
    using assms(1,2) by (intro mult_left_mono) simp_all
  also have "\<dots> = eps"
    using assms(1) by simp
  finally have a: "\<bar>uu * dd - 1\<bar> \<le> eps" .
  then have "\<bar>uu * dd\<bar> \<le> 1 + eps" by simp
  then have "eps * \<bar>uu * dd\<bar> \<le> eps * (1 + eps)"
    using e0 by (rule mult_left_mono)
  with assms(3) have b: "\<bar>pd - uu * dd\<bar> \<le> eps * (1 + eps)" by simp
  have "\<bar>pd - 1\<bar> \<le> \<bar>pd - uu * dd\<bar> + \<bar>uu * dd - 1\<bar>" by simp
  also have "\<dots> \<le> eps * (1 + eps) + eps" using a b by simp
  also have "\<dots> = 2 * eps + eps\<^sup>2" by (simp add: power2_eq_square algebra_simps)
  finally show ?thesis .
qed

text \<open>
  Claim C8, as the code has it. The factors derived from the volatility are
  \<open>u = exp (sigma * sqrt dt)\<close> and \<open>d = 1 / u\<close>, and \<open>d\<close> and the product \<open>u * d\<close> are
  each rounded. When \<open>u\<close> is a finite positive number and the quotient \<open>1 / u\<close> and the
  product \<open>u * d\<close> are each rounded with a relative error of at most \<open>eps\<close>, the product
  is a finite number within \<open>2 eps + eps\<^sup>2\<close> of 1; it need not be 1. The theorem is
  exercised on the volatility \<open>1/4\<close> in the arithmetic \<open>plain\<close>, and on the volatility 0,
  where \<open>u = d = 1\<close> in every arithmetic, with the \<open>eps\<close> of binary64.
\<close>

theorem crr_up_down_product:
  assumes "customU = None \<or> customD = None"
    and "crr_u (calculateCRRParams ar S K r sigma T N customU customD) = Fin uu" and "0 < uu"
    and "rounds_within ar eps (1 / uu) dd"
    and "rounds_within ar eps (uu * dd) pd"
  shows "crr_d (calculateCRRParams ar S K r sigma T N customU customD) = Fin dd
       \<and> jmul ar (crr_u (calculateCRRParams ar S K r sigma T N customU customD))
                 (crr_d (calculateCRRParams ar S K r sigma T N customU customD)) = Fin pd
       \<and> \<bar>pd - 1\<bar> \<le> 2 * eps + eps\<^sup>2"
proof -
  let ?c = "calculateCRRParams ar S K r sigma T N customU customD"
  have d: "crr_d ?c = jdiv ar (Fin 1) (crr_u ?c)"
    using assms(1) by (auto simp: calculateCRRParams_def Let_def split: option.splits)
  have dd: "crr_d ?c = Fin dd"
    using assms(3,4) unfolding d assms(2) by (simp add: rounds_within_def)
  have pd: "jmul ar (crr_u ?c) (crr_d ?c) = Fin pd"
    using assms(5) unfolding dd assms(2) by (simp add: rounds_within_def)
  have "\<bar>pd - 1\<bar> \<le> 2 * eps + eps\<^sup>2"
    using assms(3,4,5) rounded_product_near_one [where uu = uu and dd = dd and pd = pd and eps = eps]
    unfolding rounds_within_def by blast
  with dd pd show ?thesis by simp
qed

lemma exp_quarter_bounds: "0 < exp (1 / 4 :: real)" "exp (1 / 4 :: real) < 2 ^ 1024"
proof -
  show "0 < exp (1 / 4 :: real)" by simp
  have "exp (1 / 4 :: real) \<le> exp 1" by simp
  also have "\<dots> \<le> 3" by (rule exp_le)
  also have "\<dots> < 2 ^ 1024" by simp
  finally show "exp (1 / 4 :: real) < 2 ^ 1024" .
qed

lemma crr_u_quarter:
  "crr_u (calculateCRRParams plain (Fin 100) (Fin 100) (Fin 0) (Fin (1 / 4)) (Fin 1) 1 None None)
   = Fin (exp (1 / 4))"
proof -
  have "ovf (exp (1 / 4)) = Fin (exp (1 / 4))"
    using exp_quarter_bounds by (intro ovf_below) simp
  then show ?thesis
    by (simp add: calculateCRRParams_def Let_def plain_eval lib_sqrt_plain lib_exp_plain)
qed

theorem crr_up_down_product_witness:
  "(crr_u (calculateCRRParams plain (Fin 100) (Fin 100) (Fin 0) (Fin (1 / 4)) (Fin 1) 1 None None)
     = Fin (exp (1 / 4))
   \<and> crr_d (calculateCRRParams plain (Fin 100) (Fin 100) (Fin 0) (Fin (1 / 4)) (Fin 1) 1 None None)
     = Fin (1 / exp (1 / 4))
   \<and> jmul plain
       (crr_u (calculateCRRParams plain (Fin 100) (Fin 100) (Fin 0) (Fin (1 / 4)) (Fin 1) 1 None None))
       (crr_d (calculateCRRParams plain (Fin 100) (Fin 100) (Fin 0) (Fin (1 / 4)) (Fin 1) 1 None None))
     = Fin 1)
   \<and> (crr_u (calculateCRRParams plain (Fin 100) (Fin 100) (Fin 0) (Fin 0) (Fin 1) 1 None None)
     = Fin 1
   \<and> crr_d (calculateCRRParams plain (Fin 100) (Fin 100) (Fin 0) (Fin 0) (Fin 1) 1 None None)
     = Fin 1
   \<and> jmul plain
       (crr_u (calculateCRRParams plain (Fin 100) (Fin 100) (Fin 0) (Fin 0) (Fin 1) 1 None None))
       (crr_d (calculateCRRParams plain (Fin 100) (Fin 100) (Fin 0) (Fin 0) (Fin 1) 1 None None))
     = Fin 1)"
proof -
  have i: "\<bar>1 / exp (1 / 4 :: real)\<bar> < 2 ^ 1024"
  proof -
    have "\<bar>1 / exp (1 / 4 :: real)\<bar> = 1 / exp (1 / 4)" by simp
    also have "\<dots> \<le> 1" by simp
    also have "\<dots> < 2 ^ 1024" by simp
    finally show ?thesis .
  qed
  have a: "rounds_within plain 0 (1 / exp (1 / 4)) (1 / exp (1 / 4))"
    using i by (simp add: rounds_within_def fin_plain ovf_below)
  have b: "rounds_within plain 0 (exp (1 / 4) * (1 / exp (1 / 4))) 1"
    by (simp add: rounds_within_def fin_plain ovf_below)
  from crr_up_down_product [where ar = plain and customU = None and customD = None
      and S = "Fin 100" and K = "Fin 100" and r = "Fin 0" and sigma = "Fin (1 / 4)"
      and T = "Fin 1" and N = 1 and uu = "exp (1 / 4)" and eps = 0
      and dd = "1 / exp (1 / 4)" and pd = 1, OF _ crr_u_quarter exp_quarter_bounds(1) a b]
  have A: "crr_u (calculateCRRParams plain (Fin 100) (Fin 100) (Fin 0) (Fin (1 / 4)) (Fin 1) 1 None None)
     = Fin (exp (1 / 4))
   \<and> crr_d (calculateCRRParams plain (Fin 100) (Fin 100) (Fin 0) (Fin (1 / 4)) (Fin 1) 1 None None)
     = Fin (1 / exp (1 / 4))
   \<and> jmul plain
       (crr_u (calculateCRRParams plain (Fin 100) (Fin 100) (Fin 0) (Fin (1 / 4)) (Fin 1) 1 None None))
       (crr_d (calculateCRRParams plain (Fin 100) (Fin 100) (Fin 0) (Fin (1 / 4)) (Fin 1) 1 None None))
     = Fin 1"
    by (simp add: crr_u_quarter plain_eval)
  have u: "crr_u (calculateCRRParams plain (Fin 100) (Fin 100) (Fin 0) (Fin 0) (Fin 1) 1 None None) = Fin 1"
    by (simp add: calculateCRRParams_def Let_def plain_eval lib_sqrt_plain)
  have c: "rounds_within plain (1 / 2 ^ 53) (1 / 1) 1" "rounds_within plain (1 / 2 ^ 53) (1 * 1) 1"
    by (simp_all add: rounds_within_def plain_eval)
  have z: "(0::real) < 1" by simp
  from crr_up_down_product [where ar = plain and customU = None and customD = None
      and S = "Fin 100" and K = "Fin 100" and r = "Fin 0" and sigma = "Fin 0"
      and T = "Fin 1" and N = 1 and uu = 1 and eps = "1 / 2 ^ 53"
      and dd = 1 and pd = 1, OF _ u z c]
  have B: "crr_u (calculateCRRParams plain (Fin 100) (Fin 100) (Fin 0) (Fin 0) (Fin 1) 1 None None)
     = Fin 1
   \<and> crr_d (calculateCRRParams plain (Fin 100) (Fin 100) (Fin 0) (Fin 0) (Fin 1) 1 None None)
     = Fin 1
   \<and> jmul plain
       (crr_u (calculateCRRParams plain (Fin 100) (Fin 100) (Fin 0) (Fin 0) (Fin 1) 1 None None))
       (crr_d (calculateCRRParams plain (Fin 100) (Fin 100) (Fin 0) (Fin 0) (Fin 1) 1 None None))
     = Fin 1"
    by (simp add: u plain_eval)
  from A B show ?thesis by (rule conjI)
qed

text \<open>
  The product is not 1 on every valid input: with volatility 1000, maturity 1 and one step,
  \<^verbatim>\<open>Math.exp(1000)\<close> overflows to \<open>Infinity\<close>, \<open>d = 1 / Infinity = 0\<close>, and \<open>u * d\<close> is
  NaN.
\<close>

theorem crr_up_down_product_counterexample:
  "crr_u (calculateCRRParams plain (Fin 100) (Fin 100) (Fin 0) (Fin 1000) (Fin 1) 1 None None) = PInf
   \<and> crr_d (calculateCRRParams plain (Fin 100) (Fin 100) (Fin 0) (Fin 1000) (Fin 1) 1 None None) = Fin 0
   \<and> jmul plain
       (crr_u (calculateCRRParams plain (Fin 100) (Fin 100) (Fin 0) (Fin 1000) (Fin 1) 1 None None))
       (crr_d (calculateCRRParams plain (Fin 100) (Fin 100) (Fin 0) (Fin 1000) (Fin 1) 1 None None))
     = NaN
   \<and> jmul plain
       (crr_u (calculateCRRParams plain (Fin 100) (Fin 100) (Fin 0) (Fin 1000) (Fin 1) 1 None None))
       (crr_d (calculateCRRParams plain (Fin 100) (Fin 100) (Fin 0) (Fin 1000) (Fin 1) 1 None None))
     \<noteq> Fin 1"
proof -
  have u: "crr_u (calculateCRRParams plain (Fin 100) (Fin 100) (Fin 0) (Fin 1000) (Fin 1) 1 None None) = PInf"
    using exp_1000_overflows
    by (simp add: calculateCRRParams_def Let_def plain_eval lib_sqrt_plain lib_exp_plain
          ovf_def [of "exp 1000"])
  have d: "crr_d (calculateCRRParams plain (Fin 100) (Fin 100) (Fin 0) (Fin 1000) (Fin 1) 1 None None) = Fin 0"
    using u by (simp add: calculateCRRParams_def Let_def)
  show ?thesis
    unfolding u d by (simp add: inf_of_def)
qed

section \<open>Shape of the stock lattice\<close>

lemma sum_triangle: "(\<Sum>i\<in>{0..int n}. nat (i + 1)) = (n + 1) * (n + 2) div 2"
proof (induction n)
  case 0
  then show ?case by simp
next
  case (Suc n)
  have "{0..int (Suc n)} = insert (int n + 1) {0..int n}" by auto
  then have "(\<Sum>i\<in>{0..int (Suc n)}. nat (i + 1)) = nat (int n + 1 + 1) + (\<Sum>i\<in>{0..int n}. nat (i + 1))"
    by simp
  with Suc show ?case by (simp add: nat_add_distrib)
qed

lemma card_triangle:
  assumes "0 \<le> N"
  shows "card {(i, j). 0 \<le> j \<and> j \<le> i \<and> i \<le> N} = nat ((N + 1) * (N + 2) div 2)"
proof -
  have eq: "{(i, j). 0 \<le> j \<and> j \<le> i \<and> i \<le> N} = (SIGMA i:{0..N}. {0..i})"
    by auto
  have "card (SIGMA i:{0..N}. {0..i}) = (\<Sum>i\<in>{0..N}. card {0..i})"
    by (intro card_SigmaI) auto
  also have "\<dots> = (\<Sum>i\<in>{0..N}. nat (i + 1))"
    by (intro sum.cong) auto
  also have "\<dots> = (nat N + 1) * (nat N + 2) div 2"
    using sum_triangle [of "nat N"] assms by simp
  also have "\<dots> = nat ((N + 1) * (N + 2) div 2)"
    using assms by (simp add: nat_div_distrib nat_mult_distrib nat_add_distrib)
  finally show ?thesis by (simp add: eq)
qed

text \<open>
  Claim C5. For every \<open>S\<close>, \<open>u\<close>, \<open>d\<close> and every integer \<open>N \<ge> 0\<close> (in particular
  \<open>N \<ge> 1\<close>) the stock lattice has exactly \<open>N + 1\<close> levels, level \<open>i\<close> is an array of
  length \<open>i + 1\<close> whose nodes are exactly \<open>j = 0..i\<close>, the lattice has
  \<open>(N + 1) (N + 2) / 2\<close> nodes, and node \<open>(i, j)\<close> holds the directly computed product
  \<open>S * pow u j * pow d (i - j)\<close>.
\<close>

theorem stock_lattice_shape:
  assumes "0 \<le> N"
  shows "len (buildStockTree ar S u d N) = N + 1
       \<and> (\<forall>i. 0 \<le> i \<and> i \<le> N \<longrightarrow>
            (\<exists>row. elems (buildStockTree ar S u d N) i = Some row \<and> len row = i + 1 \<and>
               (\<forall>j. elems row j = (if 0 \<le> j \<and> j \<le> i
                                     then Some (jmul ar (jmul ar S (jpow ar u j)) (jpow ar d (i - j)))
                                     else None))))
       \<and> (\<forall>i. \<not> (0 \<le> i \<and> i \<le> N) \<longrightarrow> elems (buildStockTree ar S u d N) i = None)
       \<and> card {(i, j). peek (buildStockTree ar S u d N) i j \<noteq> None} = nat ((N + 1) * (N + 2) div 2)"
proof -
  have t: "buildStockTree ar S u d N = full N (stockPrice ar S u d)"
    using assms by (rule buildStockTree_full)
  have "{(i, j). peek (full N (stockPrice ar S u d)) i j \<noteq> None} = {(i, j). 0 \<le> j \<and> j \<le> i \<and> i \<le> N}"
    by (auto simp: peek_full)
  then have c: "card {(i, j). peek (full N (stockPrice ar S u d)) i j \<noteq> None} = nat ((N + 1) * (N + 2) div 2)"
    using card_triangle [OF assms] by simp
  show ?thesis
    unfolding t using c by (auto simp: elems_full elems_filled stockPrice_def)
qed

theorem stock_lattice_shape_witness:
  "len (buildStockTree plain (Fin 16) (Fin (3/4)) (Fin (1/2)) 2) = 3
   \<and> peek (buildStockTree plain (Fin 16) (Fin (3/4)) (Fin (1/2)) 2) 2 1 = Some (Fin 6)
   \<and> peek (buildStockTree plain (Fin 16) (Fin (3/4)) (Fin (1/2)) 2) 2 3 = None
   \<and> elems (buildStockTree plain (Fin 16) (Fin (3/4)) (Fin (1/2)) 2) 3 = None
   \<and> card {(i, j). peek (buildStockTree plain (Fin 16) (Fin (3/4)) (Fin (1/2)) 2) i j \<noteq> None} = 6"
proof -
  note sh = stock_lattice_shape [where N = 2 and ar = plain and S = "Fin 16" and u = "Fin (3/4)" and d = "Fin (1/2)"]
  have z: "(0::int) \<le> 2" by simp
  from sh [OF z] have l: "len (buildStockTree plain (Fin 16) (Fin (3/4)) (Fin (1/2)) 2) = 3" by simp
  from sh [OF z] have "\<exists>row. elems (buildStockTree plain (Fin 16) (Fin (3/4)) (Fin (1/2)) 2) 2 = Some row \<and> len row = 2 + 1 \<and>
               (\<forall>j. elems row j = (if 0 \<le> j \<and> j \<le> 2
                                     then Some (jmul plain (jmul plain (Fin 16) (jpow plain (Fin (3/4)) j)) (jpow plain (Fin (1/2)) (2 - j)))
                                     else None))"
    by (elim conjE allE [of _ "2::int"]) simp
  then obtain row where row: "elems (buildStockTree plain (Fin 16) (Fin (3/4)) (Fin (1/2)) 2) 2 = Some row"
    "\<And>j. elems row j = (if 0 \<le> j \<and> j \<le> 2
                                     then Some (jmul plain (jmul plain (Fin 16) (jpow plain (Fin (3/4)) j)) (jpow plain (Fin (1/2)) (2 - j)))
                                     else None)"
    by auto
  have p1: "peek (buildStockTree plain (Fin 16) (Fin (3/4)) (Fin (1/2)) 2) 2 1 = Some (Fin 6)"
    by (simp add: peek_def row plain_eval)
  have p2: "peek (buildStockTree plain (Fin 16) (Fin (3/4)) (Fin (1/2)) 2) 2 3 = None"
    by (simp add: peek_def row)
  from sh [OF z] have e: "elems (buildStockTree plain (Fin 16) (Fin (3/4)) (Fin (1/2)) 2) 3 = None" by simp
  from sh [OF z] have c: "card {(i, j). peek (buildStockTree plain (Fin 16) (Fin (3/4)) (Fin (1/2)) 2) i j \<noteq> None} = 6"
    by simp
  show ?thesis using l p1 p2 e c by simp
qed

section \<open>Backward induction\<close>

text \<open>
  Claim C1. For European pricing with \<open>N \<ge> 0\<close> steps the pipeline returns a result in
  which every node of step \<open>N\<close> of the option lattice holds the terminal payoff, every
  earlier node satisfies
  \<open>value (i, j) = discount * (p * value (i + 1, j + 1) + (1 - p) * value (i + 1, j))\<close>
  for \<open>0 \<le> j \<le> i \<le> N - 1\<close>, the returned price is \<open>optionTree[0][0]\<close>, and the flag of
  every node is \<open>false\<close> (there is no flag outside the lattice).
\<close>

theorem european_backward_induction:
  assumes "0 \<le> par_N ps" and "\<not> par_isAmerican ps"
  shows "\<exists>res. priceBinomialTree ar ps = Inr res
     \<and> (\<forall>j. 0 \<le> j \<and> j \<le> par_N ps \<longrightarrow>
           peek (res_optionTree res) (par_N ps) j
           = Some (payoff ar (to_num (peek (res_stockTree res) (par_N ps) j)) (par_K ps) (par_isCall ps)))
     \<and> (\<forall>i j. 0 \<le> j \<and> j \<le> i \<and> i < par_N ps \<longrightarrow>
           peek (res_optionTree res) i j
           = Some (jmul ar (crr_discount (res_crr res))
                     (jadd ar (jmul ar (crr_p (res_crr res)) (to_num (peek (res_optionTree res) (i + 1) (j + 1))))
                           (jmul ar (jsub ar (Fin 1) (crr_p (res_crr res)))
                                 (to_num (peek (res_optionTree res) (i + 1) j))))))
     \<and> res_price res = peek (res_optionTree res) 0 0
     \<and> (\<forall>i j. peek (res_earlyExercise res) i j
               = (if 0 \<le> j \<and> j \<le> i \<and> i \<le> par_N ps then Some False else None))"
proof -
  let ?N = "par_N ps"
  let ?V = "euroV ar (stockOf ar ps) (par_K ps) (crr_p (crrOf ar ps)) (crr_discount (crrOf ar ps)) (par_isCall ps) ?N"
  have v: "valueOf ar ps = ?V" and f: "flagOf ar ps = (\<lambda>i j. False)"
    using assms by (simp_all add: valueOf_def flagOf_def)
  have t: "?V ?N j = payoff ar (to_num (peek (stockOf ar ps) ?N j)) (par_K ps) (par_isCall ps)" for j
    by (subst euroV.simps) simp
  have h: "?V i j = jmul ar (crr_discount (crrOf ar ps))
                     (jadd ar (jmul ar (crr_p (crrOf ar ps)) (?V (i + 1) (j + 1)))
                           (jmul ar (jsub ar (Fin 1) (crr_p (crrOf ar ps))) (?V (i + 1) j)))"
    if "i < ?N" for i j
    using that by (subst euroV.simps) (simp add: holdValue_def)
  show ?thesis
    unfolding priceBinomialTree_full [OF assms(1)] v f
    using assms(1) by (auto simp: peek_full t h)
qed

theorem european_backward_induction_witness:
  "\<exists>res. priceBinomialTree plain example_params = Inr res
     \<and> peek (res_optionTree res) 2 2 = Some (Fin 4)
     \<and> peek (res_optionTree res) 2 1 = Some (Fin 1)
     \<and> peek (res_optionTree res) 2 0 = Some (Fin 0)
     \<and> peek (res_optionTree res) 1 1 = Some (Fin 7)
     \<and> peek (res_optionTree res) 1 0 = Some (Fin 2)
     \<and> peek (res_optionTree res) 0 0 = Some (Fin 12)
     \<and> res_price res = Some (Fin 12)
     \<and> peek (res_earlyExercise res) 1 0 = Some False
     \<and> peek (res_earlyExercise res) 3 0 = None"
proof -
  have ex: "example_params\<lparr>par_isAmerican := False\<rparr> = example_params"
    by (simp add: example_params_def)
  have n: "par_N example_params = 2" "par_K example_params = Fin 5" "par_isCall example_params"
    "\<not> par_isAmerican example_params"
    by (simp_all add: example_params_def)
  from european_backward_induction [where ps = example_params and ar = plain]
  obtain res where r: "priceBinomialTree plain example_params = Inr res"
    and tm: "\<And>j. 0 \<le> j \<Longrightarrow> j \<le> 2 \<Longrightarrow> peek (res_optionTree res) 2 j
           = Some (payoff plain (to_num (peek (res_stockTree res) 2 j)) (Fin 5) True)"
    and rc: "\<And>i j. 0 \<le> j \<Longrightarrow> j \<le> i \<Longrightarrow> i < 2 \<Longrightarrow>
           peek (res_optionTree res) i j
           = Some (jmul plain (crr_discount (res_crr res))
                     (jadd plain (jmul plain (crr_p (res_crr res)) (to_num (peek (res_optionTree res) (i + 1) (j + 1))))
                           (jmul plain (jsub plain (Fin 1) (crr_p (res_crr res)))
                                 (to_num (peek (res_optionTree res) (i + 1) j)))))"
    and pr: "res_price res = peek (res_optionTree res) 0 0"
    and fl: "\<And>i j. peek (res_earlyExercise res) i j
               = (if 0 \<le> j \<and> j \<le> i \<and> i \<le> 2 then Some False else None)"
    using n by auto
  have st: "res_stockTree res = stockOf plain example_params" and c: "res_crr res = crrOf plain example_params"
    using result_parts [OF _ r] n by simp_all
  note sx = stock_example [of False, unfolded ex]
  have c': "crr_p (res_crr res) = Fin 2" "crr_discount (res_crr res) = Fin 1"
    using crrOf_example [of False] by (simp_all add: c ex)
  have v22: "peek (res_optionTree res) 2 2 = Some (Fin 4)"
    using tm [of 2] by (simp add: st sx payoff_plain)
  have v21: "peek (res_optionTree res) 2 1 = Some (Fin 1)"
    using tm [of 1] by (simp add: st sx payoff_plain)
  have v20: "peek (res_optionTree res) 2 0 = Some (Fin 0)"
    using tm [of 0] by (simp add: st sx payoff_plain)
  have v11: "peek (res_optionTree res) 1 1 = Some (Fin 7)"
    using rc [of 1 1] by (simp add: c' v22 v21 plain_eval)
  have v10: "peek (res_optionTree res) 1 0 = Some (Fin 2)"
    using rc [of 0 1] by (simp add: c' v21 v20 plain_eval)
  have v00: "peek (res_optionTree res) 0 0 = Some (Fin 12)"
    using rc [of 0 0] by (simp add: c' v11 v10 plain_eval)
  show ?thesis
    using r v22 v21 v20 v11 v10 v00 pr fl by simp
qed

text \<open>
  Claim C2. For American pricing with \<open>N \<ge> 0\<close> steps, at every interior node (\<open>i < N\<close>)
  the option value is the exercise payoff with flag \<open>true\<close> when the exercise value strictly
  exceeds the hold value, and otherwise the hold value with flag \<open>false\<close>; in particular a
  tie resolves to holding. Every node of step \<open>N\<close> holds the payoff with flag \<open>false\<close>.
\<close>

theorem american_early_exercise_rule:
  assumes "0 \<le> par_N ps" and "par_isAmerican ps"
  shows "\<exists>res. priceBinomialTree ar ps = Inr res
     \<and> (\<forall>i j. 0 \<le> j \<and> j \<le> i \<and> i < par_N ps \<longrightarrow>
           (jgt (payoff ar (to_num (peek (res_stockTree res) i j)) (par_K ps) (par_isCall ps))
                (holdValue ar (crr_p (res_crr res)) (crr_discount (res_crr res))
                   (peek (res_optionTree res) (i + 1) (j + 1)) (peek (res_optionTree res) (i + 1) j))
            \<longrightarrow> peek (res_optionTree res) i j
                  = Some (payoff ar (to_num (peek (res_stockTree res) i j)) (par_K ps) (par_isCall ps))
                \<and> peek (res_earlyExercise res) i j = Some True)
         \<and> (\<not> jgt (payoff ar (to_num (peek (res_stockTree res) i j)) (par_K ps) (par_isCall ps))
                (holdValue ar (crr_p (res_crr res)) (crr_discount (res_crr res))
                   (peek (res_optionTree res) (i + 1) (j + 1)) (peek (res_optionTree res) (i + 1) j))
            \<longrightarrow> peek (res_optionTree res) i j
                  = Some (holdValue ar (crr_p (res_crr res)) (crr_discount (res_crr res))
                            (peek (res_optionTree res) (i + 1) (j + 1)) (peek (res_optionTree res) (i + 1) j))
                \<and> peek (res_earlyExercise res) i j = Some False)
         \<and> (payoff ar (to_num (peek (res_stockTree res) i j)) (par_K ps) (par_isCall ps)
              = holdValue ar (crr_p (res_crr res)) (crr_discount (res_crr res))
                   (peek (res_optionTree res) (i + 1) (j + 1)) (peek (res_optionTree res) (i + 1) j)
            \<longrightarrow> peek (res_optionTree res) i j
                  = Some (holdValue ar (crr_p (res_crr res)) (crr_discount (res_crr res))
                            (peek (res_optionTree res) (i + 1) (j + 1)) (peek (res_optionTree res) (i + 1) j))
                \<and> peek (res_earlyExercise res) i j = Some False))
     \<and> (\<forall>j. 0 \<le> j \<and> j \<le> par_N ps \<longrightarrow>
           peek (res_optionTree res) (par_N ps) j
           = Some (payoff ar (to_num (peek (res_stockTree res) (par_N ps) j)) (par_K ps) (par_isCall ps))
         \<and> peek (res_earlyExercise res) (par_N ps) j = Some False)"
proof -
  let ?N = "par_N ps"
  let ?V = "amerV ar (stockOf ar ps) (par_K ps) (crr_p (crrOf ar ps)) (crr_discount (crrOf ar ps)) (par_isCall ps) ?N"
  let ?F = "amerF ar (stockOf ar ps) (par_K ps) (crr_p (crrOf ar ps)) (crr_discount (crrOf ar ps)) (par_isCall ps) ?N"
  have v: "valueOf ar ps = ?V" and f: "flagOf ar ps = ?F"
    using assms by (simp_all add: valueOf_def flagOf_def)
  have t: "?V ?N j = payoff ar (to_num (peek (stockOf ar ps) ?N j)) (par_K ps) (par_isCall ps)" for j
    by (subst amerV.simps) simp
  have tf: "\<not> ?F ?N j" for j
    by (simp add: amerF_def)
  have h: "?V i j = (if ?F i j then payoff ar (to_num (peek (stockOf ar ps) i j)) (par_K ps) (par_isCall ps)
                     else holdValue ar (crr_p (crrOf ar ps)) (crr_discount (crrOf ar ps))
                            (Some (?V (i + 1) (j + 1))) (Some (?V (i + 1) j)))"
    if "i < ?N" for i j
    using that by (subst amerV.simps) (simp add: amerF_def)
  have hf: "?F i j = jgt (payoff ar (to_num (peek (stockOf ar ps) i j)) (par_K ps) (par_isCall ps))
                        (holdValue ar (crr_p (crrOf ar ps)) (crr_discount (crrOf ar ps))
                            (Some (?V (i + 1) (j + 1))) (Some (?V (i + 1) j)))"
    if "i < ?N" for i j
    using that by (simp add: amerF_def)
  show ?thesis
    unfolding priceBinomialTree_full [OF assms(1)] v f
    using assms(1) by (auto simp: peek_full t tf h hf)
qed

theorem american_early_exercise_rule_witness:
  "\<exists>res. priceBinomialTree plain (example_params\<lparr>par_isAmerican := True\<rparr>) = Inr res
     \<and> peek (res_optionTree res) 2 2 = Some (Fin 4) \<and> peek (res_earlyExercise res) 2 2 = Some False
     \<and> peek (res_optionTree res) 2 1 = Some (Fin 1) \<and> peek (res_earlyExercise res) 2 1 = Some False
     \<and> peek (res_optionTree res) 2 0 = Some (Fin 0) \<and> peek (res_earlyExercise res) 2 0 = Some False
     \<and> peek (res_optionTree res) 1 1 = Some (Fin 7) \<and> peek (res_earlyExercise res) 1 1 = Some False
     \<and> peek (res_optionTree res) 1 0 = Some (Fin 3) \<and> peek (res_earlyExercise res) 1 0 = Some True
     \<and> peek (res_optionTree res) 0 0 = Some (Fin 11) \<and> peek (res_earlyExercise res) 0 0 = Some False"
proof -
  let ?ps = "example_params\<lparr>par_isAmerican := True\<rparr>"
  note n = fields_example [of True]
  have n0: "0 \<le> par_N ?ps" by (simp add: n)
  from american_early_exercise_rule [where ps = ?ps and ar = plain]
  obtain res where r: "priceBinomialTree plain ?ps = Inr res"
    and rc: "\<And>i j. 0 \<le> j \<Longrightarrow> j \<le> i \<Longrightarrow> i < 2 \<Longrightarrow>
           (jgt (payoff plain (to_num (peek (res_stockTree res) i j)) (Fin 5) True)
                (holdValue plain (crr_p (res_crr res)) (crr_discount (res_crr res))
                   (peek (res_optionTree res) (i + 1) (j + 1)) (peek (res_optionTree res) (i + 1) j))
            \<longrightarrow> peek (res_optionTree res) i j
                  = Some (payoff plain (to_num (peek (res_stockTree res) i j)) (Fin 5) True)
                \<and> peek (res_earlyExercise res) i j = Some True)
         \<and> (\<not> jgt (payoff plain (to_num (peek (res_stockTree res) i j)) (Fin 5) True)
                (holdValue plain (crr_p (res_crr res)) (crr_discount (res_crr res))
                   (peek (res_optionTree res) (i + 1) (j + 1)) (peek (res_optionTree res) (i + 1) j))
            \<longrightarrow> peek (res_optionTree res) i j
                  = Some (holdValue plain (crr_p (res_crr res)) (crr_discount (res_crr res))
                            (peek (res_optionTree res) (i + 1) (j + 1)) (peek (res_optionTree res) (i + 1) j))
                \<and> peek (res_earlyExercise res) i j = Some False)"
    and tm: "\<And>j. 0 \<le> j \<Longrightarrow> j \<le> 2 \<Longrightarrow> peek (res_optionTree res) 2 j
           = Some (payoff plain (to_num (peek (res_stockTree res) 2 j)) (Fin 5) True)
         \<and> peek (res_earlyExercise res) 2 j = Some False"
    using n by auto
  have st: "res_stockTree res = stockOf plain ?ps" and c: "res_crr res = crrOf plain ?ps"
    using result_parts [OF n0 r] by simp_all
  note sx = stock_example [of True]
  have c': "crr_p (res_crr res) = Fin 2" "crr_discount (res_crr res) = Fin 1"
    using crrOf_example [of True] by (simp_all add: c)
  have v22: "peek (res_optionTree res) 2 2 = Some (Fin 4) \<and> peek (res_earlyExercise res) 2 2 = Some False"
    using tm [of 2] by (simp add: st sx payoff_plain)
  have v21: "peek (res_optionTree res) 2 1 = Some (Fin 1) \<and> peek (res_earlyExercise res) 2 1 = Some False"
    using tm [of 1] by (simp add: st sx payoff_plain)
  have v20: "peek (res_optionTree res) 2 0 = Some (Fin 0) \<and> peek (res_earlyExercise res) 2 0 = Some False"
    using tm [of 0] by (simp add: st sx payoff_plain)
  have v11: "peek (res_optionTree res) 1 1 = Some (Fin 7) \<and> peek (res_earlyExercise res) 1 1 = Some False"
    using rc [of 1 1] by (simp add: c' v22 v21 st sx payoff_plain holdValue_plain)
  have v10: "peek (res_optionTree res) 1 0 = Some (Fin 3) \<and> peek (res_earlyExercise res) 1 0 = Some True"
    using rc [of 0 1] by (simp add: c' v21 v20 st sx payoff_plain holdValue_plain)
  have v00: "peek (res_optionTree res) 0 0 = Some (Fin 11) \<and> peek (res_earlyExercise res) 0 0 = Some False"
    using rc [of 0 0] by (simp add: c' v11 v10 st sx payoff_plain holdValue_plain)
  show ?thesis
    using r v22 v21 v20 v11 v10 v00 by simp
qed

section \<open>American against European prices\<close>

lemma monotone_rounding_plain: "monotone_rounding plain"
  by (auto simp: monotone_rounding_def fin_plain ovf_def)

lemma fields_early:
  "par_N (example_early\<lparr>par_isAmerican := a\<rparr>) = 1"
  "par_S (example_early\<lparr>par_isAmerican := a\<rparr>) = Fin 4"
  "par_K (example_early\<lparr>par_isAmerican := a\<rparr>) = Fin 8"
  "\<not> par_isCall (example_early\<lparr>par_isAmerican := a\<rparr>)"
  "par_isAmerican (example_early\<lparr>par_isAmerican := a\<rparr>) = a"
  by (simp_all add: example_early_def)

lemma ln_five_quarters: "0 < ln (5 / 4 :: real)" "ln (5 / 4 :: real) \<le> 1000"
proof -
  show "0 < ln (5 / 4 :: real)" by (rule ln_gt_zero) simp
  have "ln (5 / 4 :: real) \<le> 5 / 4 - 1" by (rule ln_le_minus_one) simp
  then show "ln (5 / 4 :: real) \<le> 1000" by simp
qed

lemma ovf_rate: "ovf (ln (5 / 4)) = Fin (ln (5 / 4))" "ovf (- ln (5 / 4)) = Fin (- ln (5 / 4))"
  using ln_five_quarters by (simp_all add: ovf_small)

lemma exp_rate:
  "lib_exp plain (ln (5 / 4)) = Fin (5 / 4)"
  "lib_exp plain (- ln (5 / 4)) = Fin (4 / 5)"
  by (simp_all add: lib_exp_plain exp_minus ovf_small)

lemma crrOf_early:
  "crrOf plain (example_early\<lparr>par_isAmerican := a\<rparr>)
   = \<lparr>crr_dt = Fin 1, crr_u = Fin 2, crr_d = Fin (1 / 2), crr_p = Fin (1 / 2),
      crr_discount = Fin (4 / 5)\<rparr>"
proof -
  have dt: "jdiv plain (Fin 1) (Fin 1) = Fin 1" by (simp add: plain_eval)
  show ?thesis
    by (simp add: crrOf_def example_early_def calculateCRRParams_def Let_def dt plain_eval
          ovf_rate exp_rate)
qed

lemma stock_early:
  "peek (stockOf plain (example_early\<lparr>par_isAmerican := a\<rparr>)) 0 0 = Some (Fin 4)"
  "peek (stockOf plain (example_early\<lparr>par_isAmerican := a\<rparr>)) 1 0 = Some (Fin 2)"
  "peek (stockOf plain (example_early\<lparr>par_isAmerican := a\<rparr>)) 1 1 = Some (Fin 8)"
  by (simp_all add: peek_stockOf crrOf_early stockPrice_def fields_early plain_eval)

lemma value_early:
  "valueOf plain (example_early\<lparr>par_isAmerican := True\<rparr>) 0 0 = Fin 4"
  "valueOf plain (example_early\<lparr>par_isAmerican := False\<rparr>) 0 0 = Fin (12 / 5)"
  by (simp_all add: valueOf_def fields_early crrOf_early stock_early euroV.simps amerV.simps
        payoff_plain holdValue_plain)

text \<open>
  Claim C3, as the code has it. Let the rounding be monotone, the risk-neutral probability
  a number with \<open>0 \<le> p \<le> 1\<close> and the discount factor a number that is not negative
  (an infinity included). Then both pricings of the same parameters return, and whenever
  neither root price is NaN (which an overflow in the lattice can produce, as
  \<open>0 * Infinity\<close>), the American root price is greater than or equal to the European
  root price. The theorem is exercised on two runs: the put of \<open>example_early\<close>, whose
  root is exercised early (4 against 12/5), and the put of \<open>example_put\<close>, whose numbers
  are all binary fractions and whose two prices are both 3/2.
\<close>

theorem american_ge_european:
  assumes "0 \<le> par_N ps" and "monotone_rounding ar"
    and "crr_p (crrOf ar ps) = Fin pp" and "0 \<le> pp" and "pp \<le> 1"
    and "jge (crr_discount (crrOf ar ps)) (Fin 0)"
  shows "\<exists>a e.
           priceBinomialTree ar (ps\<lparr>par_isAmerican := True\<rparr>) = Inr a
         \<and> priceBinomialTree ar (ps\<lparr>par_isAmerican := False\<rparr>) = Inr e
         \<and> (res_price a \<noteq> Some NaN \<and> res_price e \<noteq> Some NaN
              \<longrightarrow> jge (to_num (res_price a)) (to_num (res_price e)))"
proof -
  let ?N = "par_N ps"
  let ?A = "amerV ar (stockOf ar ps) (par_K ps) (Fin pp) (crr_discount (crrOf ar ps)) (par_isCall ps) ?N"
  let ?E = "euroV ar (stockOf ar ps) (par_K ps) (Fin pp) (crr_discount (crrOf ar ps)) (par_isCall ps) ?N"
  have a: "valueOf ar (ps\<lparr>par_isAmerican := True\<rparr>) = ?A"
    and e: "valueOf ar (ps\<lparr>par_isAmerican := False\<rparr>) = ?E"
    using assms(3) by (simp_all add: valueOf_def crrOf_isAmerican stockOf_isAmerican)
  have na: "0 \<le> par_N (ps\<lparr>par_isAmerican := True\<rparr>)" and ne: "0 \<le> par_N (ps\<lparr>par_isAmerican := False\<rparr>)"
    using assms(1) by simp_all
  have ge: "jge (?A 0 0) (?E 0 0)" if r: "?A 0 0 \<noteq> NaN" "?E 0 0 \<noteq> NaN"
  proof -
    have nn: "?E i j \<noteq> NaN \<and> ?A i j \<noteq> NaN" if "0 \<le> j" "j \<le> i" "i \<le> ?N" for i j
      using that r euroV_NaN_up [OF that] amerV_NaN_up [OF that] by blast
    show ?thesis
      using assms(1) by (intro amer_ge_euro_nodes [OF assms(2,4,5,6) nn]) simp_all
  qed
  show ?thesis
    unfolding priceBinomialTree_full [OF na] priceBinomialTree_full [OF ne]
    using ge by (simp add: a e)
qed

theorem american_ge_european_witness:
  "(\<exists>a e. priceBinomialTree plain (example_early\<lparr>par_isAmerican := True\<rparr>) = Inr a
        \<and> priceBinomialTree plain (example_early\<lparr>par_isAmerican := False\<rparr>) = Inr e
        \<and> res_price a = Some (Fin 4) \<and> res_price e = Some (Fin (12 / 5))
        \<and> jge (to_num (res_price a)) (to_num (res_price e)))
   \<and> (\<exists>a e. priceBinomialTree plain (example_put\<lparr>par_isAmerican := True\<rparr>) = Inr a
        \<and> priceBinomialTree plain (example_put\<lparr>par_isAmerican := False\<rparr>) = Inr e
        \<and> res_price a = Some (Fin (3 / 2)) \<and> res_price e = Some (Fin (3 / 2))
        \<and> jge (to_num (res_price a)) (to_num (res_price e)))"
proof -
  have p: "(0::real) \<le> 1 / 2" "(1::real) / 2 \<le> 1" by simp_all
  have A: "\<exists>a e. priceBinomialTree plain (example_early\<lparr>par_isAmerican := True\<rparr>) = Inr a
        \<and> priceBinomialTree plain (example_early\<lparr>par_isAmerican := False\<rparr>) = Inr e
        \<and> res_price a = Some (Fin 4) \<and> res_price e = Some (Fin (12 / 5))
        \<and> jge (to_num (res_price a)) (to_num (res_price e))"
  proof -
    have ex: "example_early\<lparr>par_isAmerican := True\<rparr> = example_early"
      by (simp add: example_early_def)
    have n: "0 \<le> par_N (example_early\<lparr>par_isAmerican := a\<rparr>)" for a
      by (simp add: fields_early)
    have c: "crr_p (crrOf plain example_early) = Fin (1 / 2)"
      "jge (crr_discount (crrOf plain example_early)) (Fin 0)"
      using crrOf_early [of True] by (simp_all add: ex)
    from american_ge_european [where ps = example_early and ar = plain and pp = "1 / 2",
        OF n [of True, unfolded ex] monotone_rounding_plain c(1) p c(2)]
    obtain a e where r: "priceBinomialTree plain (example_early\<lparr>par_isAmerican := True\<rparr>) = Inr a"
      "priceBinomialTree plain (example_early\<lparr>par_isAmerican := False\<rparr>) = Inr e"
      and g: "res_price a \<noteq> Some NaN \<and> res_price e \<noteq> Some NaN
                \<longrightarrow> jge (to_num (res_price a)) (to_num (res_price e))"
      by blast
    have v: "res_price a = Some (Fin 4)" "res_price e = Some (Fin (12 / 5))"
      using result_trees(3) [OF n r(1)] result_trees(3) [OF n r(2)] by (simp_all add: value_early)
    with g have "jge (to_num (res_price a)) (to_num (res_price e))" by simp
    with r v show ?thesis by (intro exI [of _ a] exI [of _ e] conjI)
  qed
  have B: "\<exists>a e. priceBinomialTree plain (example_put\<lparr>par_isAmerican := True\<rparr>) = Inr a
        \<and> priceBinomialTree plain (example_put\<lparr>par_isAmerican := False\<rparr>) = Inr e
        \<and> res_price a = Some (Fin (3 / 2)) \<and> res_price e = Some (Fin (3 / 2))
        \<and> jge (to_num (res_price a)) (to_num (res_price e))"
  proof -
    have n: "0 \<le> par_N (example_put\<lparr>par_isAmerican := a\<rparr>)" for a
      by (simp add: fields_put)
    have c: "crr_p (crrOf plain example_put) = Fin (1 / 2)"
      "jge (crr_discount (crrOf plain example_put)) (Fin 0)"
      using crrOf_put [of True] by (simp_all add: example_put_American)
    from american_ge_european [where ps = example_put and ar = plain and pp = "1 / 2",
        OF n [of True, unfolded example_put_American] monotone_rounding_plain c(1) p c(2)]
    obtain a e where r: "priceBinomialTree plain (example_put\<lparr>par_isAmerican := True\<rparr>) = Inr a"
      "priceBinomialTree plain (example_put\<lparr>par_isAmerican := False\<rparr>) = Inr e"
      and g: "res_price a \<noteq> Some NaN \<and> res_price e \<noteq> Some NaN
                \<longrightarrow> jge (to_num (res_price a)) (to_num (res_price e))"
      by blast
    have v: "res_price a = Some (Fin (3 / 2))" "res_price e = Some (Fin (3 / 2))"
      using result_trees(3) [OF n r(1)] result_trees(3) [OF n r(2)] by (simp_all add: value_put)
    with g have "jge (to_num (res_price a)) (to_num (res_price e))" by simp
    with r v show ?thesis by (intro exI [of _ a] exI [of _ e] conjI)
  qed
  from A B show ?thesis by (rule conjI)
qed

text \<open>
  For a probability outside \<open>[0, 1]\<close> the order can be reversed: with spot 16, strike 5,
  zero rate, two steps and the custom factors \<open>u = 3/4\<close>, \<open>d = 1/2\<close> (so \<open>p = 2\<close>) the
  American call is worth 11 and the European call 12. Every number of this run is a
  binary fraction, so that no operation rounds.
\<close>

theorem american_below_european_counterexample:
  "\<exists>a e. priceBinomialTree plain (example_params\<lparr>par_isAmerican := True\<rparr>) = Inr a
        \<and> priceBinomialTree plain (example_params\<lparr>par_isAmerican := False\<rparr>) = Inr e
        \<and> res_price a = Some (Fin 11) \<and> res_price e = Some (Fin 12)
        \<and> \<not> jge (to_num (res_price a)) (to_num (res_price e))"
proof -
  have n: "0 \<le> par_N (example_params\<lparr>par_isAmerican := a\<rparr>)" for a
    by (simp add: fields_example)
  show ?thesis
    unfolding priceBinomialTree_full [OF n]
    by (simp add: value_example)
qed

section \<open>Totality of the pipeline\<close>

text \<open>
  Claim C9. For every integer step count \<open>N \<ge> 0\<close> (the contract of the core asks for
  \<open>N \<ge> 1\<close>) and all other inputs, finite or not, \<^verbatim>\<open>priceBinomialTree\<close> raises no
  exception and returns a fully populated result: the CRR parameters, three lattices of
  \<open>N + 1\<close> rows with a value at every node \<open>0 \<le> j \<le> i \<le> N\<close>, and a price. In the
  degenerate case \<open>u = d\<close> the probability \<open>p\<close> is infinite or NaN and is returned as it
  is.
\<close>

theorem pipeline_total_nonnegative_steps:
  assumes "0 \<le> par_N ps"
  shows "\<exists>res. priceBinomialTree ar ps = Inr res
     \<and> res_crr res =
         (if par_isCustomUD ps
          then calculateCRRParams ar (par_S ps) (par_K ps) (par_r ps) (par_sigma ps) (par_T ps)
                 (par_N ps) (par_customU ps) (par_customD ps)
          else calculateCRRParams ar (par_S ps) (par_K ps) (par_r ps) (par_sigma ps) (par_T ps)
                 (par_N ps) None None)
     \<and> (crr_u (res_crr res) = crr_d (res_crr res) \<longrightarrow>
          crr_p (res_crr res) = PInf \<or> crr_p (res_crr res) = NInf \<or> crr_p (res_crr res) = NaN)
     \<and> len (res_stockTree res) = par_N ps + 1
     \<and> len (res_optionTree res) = par_N ps + 1
     \<and> len (res_earlyExercise res) = par_N ps + 1
     \<and> (\<forall>i j. 0 \<le> j \<and> j \<le> i \<and> i \<le> par_N ps \<longrightarrow>
           peek (res_stockTree res) i j \<noteq> None \<and> peek (res_optionTree res) i j \<noteq> None
         \<and> peek (res_earlyExercise res) i j \<noteq> None)
     \<and> res_price res \<noteq> None"
  unfolding priceBinomialTree_full [OF assms]
  using assms crr_p_degenerate [where ps = ps and ar = ar]
  by (auto simp: peek_full stockOf_full crrOf_def)

theorem pipeline_total_nonnegative_steps_witness:
  "\<exists>res. priceBinomialTree plain example_flat = Inr res
     \<and> crr_u (res_crr res) = Fin 1 \<and> crr_d (res_crr res) = Fin 1
     \<and> crr_p (res_crr res) = NaN
     \<and> peek (res_stockTree res) 1 1 = Some (Fin 16)
     \<and> peek (res_optionTree res) 1 1 = Some (Fin 11)
     \<and> res_price res = Some NaN"
proof -
  have n: "0 \<le> par_N example_flat" by (simp add: fields_flat)
  from pipeline_total_nonnegative_steps [OF n, where ar = plain]
  obtain res where r: "priceBinomialTree plain example_flat = Inr res"
    and d: "crr_u (res_crr res) = crr_d (res_crr res) \<longrightarrow>
          crr_p (res_crr res) = PInf \<or> crr_p (res_crr res) = NInf \<or> crr_p (res_crr res) = NaN"
    by blast
  have c: "res_crr res = crrOf plain example_flat" and st: "res_stockTree res = stockOf plain example_flat"
    using result_parts [OF n r] by simp_all
  have ot: "res_optionTree res = full 1 (valueOf plain example_flat)"
    and pr: "res_price res = Some (valueOf plain example_flat 0 0)"
    using result_trees [OF n r] by (simp_all add: fields_flat)
  show ?thesis
    using r by (simp add: c st ot pr crrOf_flat stock_flat value_flat peek_full)
qed

section \<open>Greeks on degenerate lattices\<close>

text \<open>
  Claim C7, as the code has it. For \<open>N = 0\<close> and \<open>N = 1\<close> the pipeline returns without
  an exception and Gamma is 0. Delta is 0 for \<open>N = 0\<close>; for \<open>N = 1\<close> the lattice has the
  two levels that Delta needs, and Delta is the finite difference
  \<open>(V(1,1) - V(1,0)) / (S(1,1) - S(1,0))\<close>.
\<close>

theorem greeks_degenerate_steps:
  assumes "par_N ps = 0 \<or> par_N ps = 1"
  shows "\<exists>res. priceBinomialTree ar ps = Inr res
     \<and> res_gamma res = Fin 0
     \<and> (par_N ps = 0 \<longrightarrow> res_delta res = Fin 0)
     \<and> (par_N ps = 1 \<longrightarrow>
          res_delta res
          = jdiv ar (jsub ar (to_num (peek (res_optionTree res) 1 1)) (to_num (peek (res_optionTree res) 1 0)))
                 (jsub ar (to_num (peek (res_stockTree res) 1 1)) (to_num (peek (res_stockTree res) 1 0))))"
proof -
  have n: "0 \<le> par_N ps" using assms by auto
  show ?thesis
    unfolding priceBinomialTree_full [OF n]
    using assms by (auto simp: peek_full stockOf_full)
qed

theorem greeks_degenerate_steps_witness:
  "(\<exists>res. priceBinomialTree plain (example_put\<lparr>par_N := 0\<rparr>) = Inr res
       \<and> res_delta res = Fin 0 \<and> res_gamma res = Fin 0)
   \<and> (\<exists>res. priceBinomialTree plain example_put = Inr res
       \<and> res_delta res = Fin (- 3 / 4) \<and> res_gamma res = Fin 0)"
proof -
  have "\<exists>res. priceBinomialTree plain (example_put\<lparr>par_N := 0\<rparr>) = Inr res
       \<and> res_delta res = Fin 0 \<and> res_gamma res = Fin 0"
    using greeks_degenerate_steps [where ps = "example_put\<lparr>par_N := 0\<rparr>" and ar = plain] by auto
  moreover have "\<exists>res. priceBinomialTree plain example_put = Inr res
       \<and> res_delta res = Fin (- 3 / 4) \<and> res_gamma res = Fin 0"
  proof -
    have n: "par_N example_put = 1" "0 \<le> par_N example_put"
      using fields_put [of True] by (simp_all add: example_put_American)
    from greeks_degenerate_steps [where ps = example_put and ar = plain] n
    obtain res where r: "priceBinomialTree plain example_put = Inr res"
      and g: "res_gamma res = Fin 0"
      and d: "res_delta res
          = jdiv plain (jsub plain (to_num (peek (res_optionTree res) 1 1)) (to_num (peek (res_optionTree res) 1 0)))
                 (jsub plain (to_num (peek (res_stockTree res) 1 1)) (to_num (peek (res_stockTree res) 1 0)))"
      by auto
    have st: "res_stockTree res = stockOf plain example_put"
      using result_parts [OF n(2) r] by simp
    have ot: "res_optionTree res = full 1 (valueOf plain example_put)"
      using result_trees [OF n(2) r] by (simp add: n)
    have "res_delta res = Fin (- 3 / 4)"
      unfolding d st ot
      using stock_put [of True] value_put [of True]
      by (simp add: example_put_American peek_full plain_eval)
    with r g show ?thesis by auto
  qed
  ultimately show ?thesis by simp
qed

text \<open>
  The Delta of a one-step lattice is not 0 in general: for the one-step put of
  \<open>example_put\<close> it is \<open>(0 - 3) / (6 - 2) = - 3/4\<close>.
\<close>

theorem delta_one_step_counterexample:
  "par_N example_put = 1
   \<and> (\<exists>res. priceBinomialTree plain example_put = Inr res \<and> res_delta res = Fin (- 3 / 4)
          \<and> res_delta res \<noteq> Fin 0)"
proof -
  have n: "par_N example_put = 1" "0 \<le> par_N example_put"
    using fields_put [of True] by (simp_all add: example_put_American)
  have s: "stockPrice plain (par_S example_put) (crr_u (crrOf plain example_put)) (crr_d (crrOf plain example_put)) 1 1 = Fin 6"
    "stockPrice plain (par_S example_put) (crr_u (crrOf plain example_put)) (crr_d (crrOf plain example_put)) 1 0 = Fin 2"
    using stock_put(2,3) [of True] by (simp_all add: example_put_American peek_stockOf n)
  show ?thesis
    unfolding priceBinomialTree_full [OF n(2)]
    using value_put [of True]
    by (simp add: n s example_put_American plain_eval)
qed

section \<open>The American value against the payoff\<close>

text \<open>
  Claim C10, as the code has it. For American pricing over a stock lattice of \<open>N + 1\<close>
  rows, with any \<open>p\<close> and any discount factor, the value stored at a node
  \<open>0 \<le> j \<le> i \<le> N\<close> is greater than or equal to the exercise payoff of that node
  exactly when neither of the two is NaN, and it equals the payoff whenever the flag of
  the node is \<open>true\<close> or the node is terminal.
\<close>

theorem american_value_dominates_payoff:
  assumes "0 \<le> N" and "\<forall>i. 0 \<le> i \<and> i \<le> N \<longrightarrow> elems stockTree i \<noteq> None"
  shows "\<exists>optionTree earlyExercise.
       priceAmerican ar stockTree K p discount isCall N = Inr (optionTree, earlyExercise)
     \<and> (\<forall>i j. 0 \<le> j \<and> j \<le> i \<and> i \<le> N \<longrightarrow>
          (\<exists>v. peek optionTree i j = Some v
             \<and> (jge v (payoff ar (to_num (peek stockTree i j)) K isCall)
                  \<longleftrightarrow> v \<noteq> NaN \<and> payoff ar (to_num (peek stockTree i j)) K isCall \<noteq> NaN)
             \<and> (peek earlyExercise i j = Some True \<or> i = N
                  \<longrightarrow> v = payoff ar (to_num (peek stockTree i j)) K isCall)))"
proof -
  let ?V = "amerV ar stockTree K p discount isCall N"
  let ?F = "amerF ar stockTree K p discount isCall N"
  have pa: "priceAmerican ar stockTree K p discount isCall N = Inr (full N ?V, full N ?F)"
    using assms by (intro priceAmerican_full) auto
  have a: "jge (?V i j) (payoff ar (to_num (peek stockTree i j)) K isCall)
             \<longleftrightarrow> ?V i j \<noteq> NaN \<and> payoff ar (to_num (peek stockTree i j)) K isCall \<noteq> NaN"
    if "i \<le> N" for i j
    using amerV_not_gt [OF that, where st = stockTree and j = j and K = K and c = isCall
        and p = p and discount = discount and ar = ar]
    by (simp add: jge_def)
  have b: "?V i j = payoff ar (to_num (peek stockTree i j)) K isCall" if "?F i j \<or> i = N" for i j
    using that by (rule amerV_exercised)
  have P1: "\<forall>i j. 0 \<le> j \<and> j \<le> i \<and> i \<le> N \<longrightarrow>
          (\<exists>v. peek (full N ?V) i j = Some v
             \<and> (jge v (payoff ar (to_num (peek stockTree i j)) K isCall)
                  \<longleftrightarrow> v \<noteq> NaN \<and> payoff ar (to_num (peek stockTree i j)) K isCall \<noteq> NaN)
             \<and> (peek (full N ?F) i j = Some True \<or> i = N
                  \<longrightarrow> v = payoff ar (to_num (peek stockTree i j)) K isCall))"
    using a b by (auto simp: peek_full)
  show ?thesis
    unfolding pa
    by (intro exI [of _ "full N ?V"] exI [of _ "full N ?F"] conjI refl P1)
qed

theorem american_value_dominates_payoff_witness:
  "(\<exists>optionTree earlyExercise.
       priceAmerican plain (stockOf plain example_put) (Fin 5) (Fin (1 / 2)) (Fin 1) False 1
         = Inr (optionTree, earlyExercise)
     \<and> peek optionTree 0 0 = Some (Fin (3 / 2))
     \<and> payoff plain (to_num (peek (stockOf plain example_put) 0 0)) (Fin 5) False = Fin 1
     \<and> jge (to_num (peek optionTree 0 0))
            (payoff plain (to_num (peek (stockOf plain example_put) 0 0)) (Fin 5) False))
   \<and> (\<exists>optionTree earlyExercise.
       priceAmerican plain (stockOf plain example_params) (Fin 5) (Fin 2) (Fin 1) True 2
         = Inr (optionTree, earlyExercise)
     \<and> peek earlyExercise 1 0 = Some True
     \<and> peek optionTree 1 0 = Some (Fin 3)
     \<and> payoff plain (to_num (peek (stockOf plain example_params) 1 0)) (Fin 5) True = Fin 3)"
proof -
  have np: "par_N example_put = 1" and ne: "par_N example_params = 2"
    by (simp_all add: example_put_def example_params_def)
  have rp: "\<forall>i. 0 \<le> i \<and> i \<le> 1 \<longrightarrow> elems (stockOf plain example_put) i \<noteq> None"
    using rows_stockOf [where ps = example_put and ar = plain] by (simp add: np)
  have re: "\<forall>i. 0 \<le> i \<and> i \<le> 2 \<longrightarrow> elems (stockOf plain example_params) i \<noteq> None"
    using rows_stockOf [where ps = example_params and ar = plain] by (simp add: ne)
  have z: "(0::int) \<le> 1" "(0::int) \<le> 2" by simp_all
  have sp: "peek (stockOf plain example_put) 0 0 = Some (Fin 4)"
    using stock_put(1) [of True] by (simp add: example_put_American)
  have se: "peek (stockOf plain example_params) 1 0 = Some (Fin 8)"
    using stock_example(2) [of True] by (simp add: stockOf_isAmerican)
  from american_value_dominates_payoff [OF z(1) rp, where ar = plain and K = "Fin 5"
      and p = "Fin (1 / 2)" and discount = "Fin 1" and isCall = False]
  obtain ot ee where p1: "priceAmerican plain (stockOf plain example_put) (Fin 5) (Fin (1 / 2)) (Fin 1) False 1 = Inr (ot, ee)"
    and p2: "\<forall>i j. 0 \<le> j \<and> j \<le> i \<and> i \<le> 1 \<longrightarrow>
          (\<exists>v. peek ot i j = Some v
             \<and> (jge v (payoff plain (to_num (peek (stockOf plain example_put) i j)) (Fin 5) False)
                  \<longleftrightarrow> v \<noteq> NaN \<and> payoff plain (to_num (peek (stockOf plain example_put) i j)) (Fin 5) False \<noteq> NaN)
             \<and> (peek ee i j = Some True \<or> i = 1
                  \<longrightarrow> v = payoff plain (to_num (peek (stockOf plain example_put) i j)) (Fin 5) False))"
    by blast
  have ot: "ot = full 1 (amerV plain (stockOf plain example_put) (Fin 5) (Fin (1 / 2)) (Fin 1) False 1)"
    using p1 priceAmerican_full [where N = 1 and st = "stockOf plain example_put" and ar = plain
        and K = "Fin 5" and p = "Fin (1 / 2)" and discount = "Fin 1" and isCall = False] rp
    by simp
  have v: "peek ot 0 0 = Some (Fin (3 / 2))"
    by (simp add: ot peek_full amerV_put)
  from p2 [rule_format, of 0 0] v
  have d: "jge (Fin (3 / 2)) (payoff plain (to_num (peek (stockOf plain example_put) 0 0)) (Fin 5) False)"
    by (simp add: sp payoff_plain)
  from american_value_dominates_payoff [OF z(2) re, where ar = plain and K = "Fin 5"
      and p = "Fin 2" and discount = "Fin 1" and isCall = True]
  obtain ot' ee' where q1: "priceAmerican plain (stockOf plain example_params) (Fin 5) (Fin 2) (Fin 1) True 2 = Inr (ot', ee')"
    and q2: "\<forall>i j. 0 \<le> j \<and> j \<le> i \<and> i \<le> 2 \<longrightarrow>
          (\<exists>v. peek ot' i j = Some v
             \<and> (jge v (payoff plain (to_num (peek (stockOf plain example_params) i j)) (Fin 5) True)
                  \<longleftrightarrow> v \<noteq> NaN \<and> payoff plain (to_num (peek (stockOf plain example_params) i j)) (Fin 5) True \<noteq> NaN)
             \<and> (peek ee' i j = Some True \<or> i = 2
                  \<longrightarrow> v = payoff plain (to_num (peek (stockOf plain example_params) i j)) (Fin 5) True))"
    by blast
  have ee': "ee' = full 2 (amerF plain (stockOf plain example_params) (Fin 5) (Fin 2) (Fin 1) True 2)"
    using q1 priceAmerican_full [where N = 2 and st = "stockOf plain example_params" and ar = plain
        and K = "Fin 5" and p = "Fin 2" and discount = "Fin 1" and isCall = True] re
    by simp
  have f: "peek ee' 1 0 = Some True"
    by (simp add: ee' peek_full amerV_example)
  from q2 [rule_format, of 0 1] f
  have w: "peek ot' 1 0 = Some (Fin 3)"
    by (auto simp: se payoff_plain)
  show ?thesis
    using p1 v d q1 f w by (simp add: sp se payoff_plain)
qed

text \<open>
  The stored value is not always greater than or equal to the payoff: with \<open>u = d\<close> the
  probability is NaN, the hold value of the root is NaN, the comparison
  \<open>exercise > hold\<close> is false, and the root stores NaN, which is not greater than or
  equal to its payoff 11.
\<close>

theorem american_nan_value_counterexample:
  "\<exists>res. priceBinomialTree plain example_flat = Inr res
     \<and> crr_p (res_crr res) = NaN
     \<and> peek (res_optionTree res) 0 0 = Some NaN
     \<and> payoff plain (to_num (peek (res_stockTree res) 0 0)) (par_K example_flat) (par_isCall example_flat)
         = Fin 11
     \<and> \<not> jge (to_num (peek (res_optionTree res) 0 0))
              (payoff plain (to_num (peek (res_stockTree res) 0 0)) (par_K example_flat)
                 (par_isCall example_flat))"
proof -
  have n: "0 \<le> par_N example_flat" by (simp add: fields_flat)
  show ?thesis
    unfolding priceBinomialTree_full [OF n]
    by (simp add: crrOf_flat stock_flat value_flat fields_flat peek_full payoff_plain)
qed

section \<open>Early exercise collection\<close>

text \<open>
  Claim C6. For \<open>N \<ge> 0\<close> the list of early exercise records of an American run holds,
  for each step \<open>i = 0, \<dots>, N - 1\<close> in increasing order and within a step for each state
  \<open>j = 0, \<dots>, i\<close> in increasing order, the record
  \<open>{step = i, state = j, stockPrice = stockTree[i][j], optionValue = optionTree[i][j]}\<close> of
  every node whose flag is \<open>true\<close>, and nothing else: its records are exactly those of the
  flagged nodes with \<open>step < N\<close>, and the list is strictly increasing by step and then by
  state, so that no node has two records. For a European run the list is empty.
\<close>

theorem early_exercise_records:
  assumes "0 \<le> par_N ps"
  shows "\<exists>res. priceBinomialTree ar ps = Inr res
     \<and> (\<not> par_isAmerican ps \<longrightarrow> res_earlyExerciseNodes res = [])
     \<and> (par_isAmerican ps \<longrightarrow>
          res_earlyExerciseNodes res
          = concat (map (\<lambda>i. map (nodeAt (res_stockTree res) (res_optionTree res) i)
                                (filter (\<lambda>j. peek (res_earlyExercise res) i j = Some True) [0..i]))
                     [0..par_N ps - 1])
        \<and> set (res_earlyExerciseNodes res)
          = {nodeAt (res_stockTree res) (res_optionTree res) i j | i j.
               0 \<le> j \<and> j \<le> i \<and> i < par_N ps \<and> peek (res_earlyExercise res) i j = Some True}
        \<and> sorted_wrt node_before (res_earlyExerciseNodes res))"
proof -
  have "\<exists>res. priceBinomialTree ar ps = Inr res"
    unfolding priceBinomialTree_full [OF assms] by (rule exI) (rule refl)
  then obtain res where r: "priceBinomialTree ar ps = Inr res" ..
  note n = result_nodes [OF assms r]
  have lt: "i \<le> par_N ps - 1 \<longleftrightarrow> i < par_N ps" for i by auto
  show ?thesis
  proof (intro exI [of _ res] conjI impI)
    show "priceBinomialTree ar ps = Inr res" by fact
    show "res_earlyExerciseNodes res = []" if "\<not> par_isAmerican ps"
      using that by (simp add: n)
    assume a: "par_isAmerican ps"
    show "res_earlyExerciseNodes res
          = concat (map (\<lambda>i. map (nodeAt (res_stockTree res) (res_optionTree res) i)
                                (filter (\<lambda>j. peek (res_earlyExercise res) i j = Some True) [0..i]))
                     [0..par_N ps - 1])"
      using a by (simp add: n)
    show "set (res_earlyExerciseNodes res)
          = {nodeAt (res_stockTree res) (res_optionTree res) i j | i j.
               0 \<le> j \<and> j \<le> i \<and> i < par_N ps \<and> peek (res_earlyExercise res) i j = Some True}"
      unfolding n using a by (simp only: if_True records_set lt)
    show "sorted_wrt node_before (res_earlyExerciseNodes res)"
      unfolding n using a by (simp only: if_True records_sorted)
  qed
qed

theorem early_exercise_records_witness:
  "(\<exists>res. priceBinomialTree plain example_three = Inr res
      \<and> res_earlyExerciseNodes res
        = [\<lparr>node_step = 1, node_state = 0,
             node_stockPrice = Some (Fin 8), node_optionValue = Some (Fin 3)\<rparr>,
           \<lparr>node_step = 2, node_state = 1,
             node_stockPrice = Some (Fin 6), node_optionValue = Some (Fin 1)\<rparr>,
           \<lparr>node_step = 2, node_state = 2,
             node_stockPrice = Some (Fin 9), node_optionValue = Some (Fin 4)\<rparr>])
   \<and> (\<exists>res. priceBinomialTree plain example_params = Inr res \<and> res_earlyExerciseNodes res = [])"
proof -
  have n3: "0 \<le> par_N example_three" by (simp add: fields_three)
  from early_exercise_records [OF n3, where ar = plain]
  obtain res where r: "priceBinomialTree plain example_three = Inr res"
    and l: "res_earlyExerciseNodes res
          = concat (map (\<lambda>i. map (nodeAt (res_stockTree res) (res_optionTree res) i)
                                (filter (\<lambda>j. peek (res_earlyExercise res) i j = Some True) [0..i]))
                     [0..par_N example_three - 1])"
    using fields_three(5) by blast
  have st: "res_stockTree res = stockOf plain example_three"
    using result_parts [OF n3 r] by simp
  have ot: "res_optionTree res = full 3 (valueOf plain example_three)"
    and ee: "res_earlyExercise res = full 3 (flagOf plain example_three)"
    using result_trees [OF n3 r] by (simp_all add: fields_three)
  have u: "[0..2] = [0, 1, 2::int]" "[0..1] = [0, 1::int]" "[0..0] = [0::int]"
    by (simp_all add: upto_rec1)
  have "res_earlyExerciseNodes res
        = [\<lparr>node_step = 1, node_state = 0,
             node_stockPrice = Some (Fin 8), node_optionValue = Some (Fin 3)\<rparr>,
           \<lparr>node_step = 2, node_state = 1,
             node_stockPrice = Some (Fin 6), node_optionValue = Some (Fin 1)\<rparr>,
           \<lparr>node_step = 2, node_state = 2,
             node_stockPrice = Some (Fin 9), node_optionValue = Some (Fin 4)\<rparr>]"
    unfolding l st ot ee
    by (simp add: fields_three u peek_full flag_three nodeAt_def stock_three value_three)
  with r have A: "\<exists>res. priceBinomialTree plain example_three = Inr res
      \<and> res_earlyExerciseNodes res
        = [\<lparr>node_step = 1, node_state = 0,
             node_stockPrice = Some (Fin 8), node_optionValue = Some (Fin 3)\<rparr>,
           \<lparr>node_step = 2, node_state = 1,
             node_stockPrice = Some (Fin 6), node_optionValue = Some (Fin 1)\<rparr>,
           \<lparr>node_step = 2, node_state = 2,
             node_stockPrice = Some (Fin 9), node_optionValue = Some (Fin 4)\<rparr>]"
    by (intro exI [of _ res] conjI)
  have n2: "0 \<le> par_N example_params" "\<not> par_isAmerican example_params"
    by (simp_all add: example_params_def)
  from early_exercise_records [OF n2(1), where ar = plain] n2(2)
  have B: "\<exists>res. priceBinomialTree plain example_params = Inr res \<and> res_earlyExerciseNodes res = []"
    by (elim exE conjE) (rule exI, simp)
  from A B show ?thesis by (rule conjI)
qed

end
